theory Spec2Isabelle
  imports Complex_Main
begin

section \<open>Utility routines of the DCI reference implementation (util.c)\<close>

text \<open>
  The C type \<open>double\<close> is IEEE 754 binary64. \<open>compute_dist\<close> and \<open>rand_normal\<close>
  compute with it and are embedded over the type \<open>double\<close> of the next subsection:
  every arithmetic operator of the source is one binary64 operation, rounded to nearest
  with ties to even, and \<open>sqrt\<close> is the correctly rounded square root. This is how
  the x86-64 target of the Makefile (\<^verbatim>\<open>-m64\<close>, no other machine flag) evaluates
  \<open>double\<close> expressions: no wider intermediate precision and no fused multiply-add.
  \<open>matmul\<close> does no arithmetic of its own: it hands its buffers to the external
  \<open>DGEMM\<close>, whose contract is stated over the real numbers, and its buffers are lists
  of reals.

  A \<open>const double*\<close> argument is the contents of the buffer it points to, a list read
  by index; a read outside the buffer (undefined behaviour in C) makes the model return
  \<open>None\<close>. The C type \<open>int\<close> is \<^typ>\<open>int\<close>; the loop counters below stay between
  0 and a bound that is itself an \<open>int\<close> of the program, so no counter wraps.
\<close>

subsection \<open>binary64 arithmetic\<close>

text \<open>
  A binary64 datum is a finite number, a zero with its sign, an infinity with its sign,
  or a NaN. \<open>Finite x\<close> is the number \<open>x\<close>, \<open>Finite 0\<close> the zero whose sign bit is
  clear and \<open>MZero\<close> the zero whose sign bit is set. One \<open>NaN\<close> stands for all of them:
  payloads and the exception flags are not modelled.
\<close>

datatype double = Finite real | MZero | PInf | MInf | NaN

text \<open>
  The integer nearest to \<open>x\<close>, the even one of two that are equally near.
\<close>

definition round_even :: "real \<Rightarrow> int" where
  "round_even x =
     (let f = \<lfloor>x\<rfloor>; r = x - of_int f
      in if r < 1 / 2 then f else if 1 / 2 < r then f + 1 else if even f then f else f + 1)"

text \<open>
The power \<open>2\<^sup>q\<close> for an integer \<open>q\<close>.
\<close>

definition pow2 :: "int \<Rightarrow> real" where
  "pow2 q = (if 0 \<le> q then 2 ^ nat q else 1 / 2 ^ nat (- q))"

text \<open>
  The finite binary64 numbers are the multiples \<open>m * 2\<^sup>q\<close> of a power of two with
  \<open>\<bar>m\<bar> < 2^53\<close> and \<open>-1074 \<le> q \<le> 971\<close>. Around a real \<open>x\<close> they form a grid
  of step \<open>2\<^sup>q\<close>, where \<open>q\<close> lies 52 below the binary exponent of \<open>x\<close> and is
  \<open>-1074\<close> in the subnormal range; \<open>nearest x\<close> is the point of that grid nearest to
  \<open>x\<close>, ties going to the even multiple, with the exponent not yet bounded above.
\<close>

definition ulp_exponent :: "real \<Rightarrow> int" where
  "ulp_exponent x = max (\<lfloor>log 2 \<bar>x\<bar>\<rfloor> - 52) (- 1074)"

definition nearest :: "real \<Rightarrow> real" where
  "nearest x = of_int (round_even (x / pow2 (ulp_exponent x))) * pow2 (ulp_exponent x)"

text \<open>
  A real is a binary64 number when rounding leaves it as it is and it is below the
  overflow threshold.
\<close>

definition binary64 :: "real \<Rightarrow> bool" where
  "binary64 x \<longleftrightarrow> nearest x = x \<and> \<bar>x\<bar> < 2 ^ 1024"

text \<open>
  The binary64 result of an operation whose exact value is \<open>x\<close>: the nearest binary64
  number; an infinity when that is \<open>2^1024\<close> or more in magnitude; and, when it
  is zero, the zero with the sign bit \<open>neg\<close> that the operation prescribes.
\<close>

definition signed_zero :: "bool \<Rightarrow> double" where
  "signed_zero neg = (if neg then MZero else Finite 0)"

definition signed_inf :: "bool \<Rightarrow> double" where
  "signed_inf neg = (if neg then MInf else PInf)"

definition round64 :: "bool \<Rightarrow> real \<Rightarrow> double" where
  "round64 neg x =
     (let y = nearest x
      in if 2 ^ 1024 \<le> \<bar>y\<bar> then signed_inf (y < 0)
         else if y = 0 then signed_zero neg
         else Finite y)"

fun is_neg :: "double \<Rightarrow> bool" where
  "is_neg (Finite x) = (x < 0)"
| "is_neg MZero = True"
| "is_neg PInf = False"
| "is_neg MInf = True"
| "is_neg NaN = False"

fun is_inf :: "double \<Rightarrow> bool" where
  "is_inf PInf = True"
| "is_inf MInf = True"
| "is_inf _ = False"

fun is_zero :: "double \<Rightarrow> bool" where
  "is_zero (Finite x) = (x = 0)"
| "is_zero MZero = True"
| "is_zero _ = False"

fun is_finite :: "double \<Rightarrow> bool" where
  "is_finite (Finite x) = True"
| "is_finite MZero = True"
| "is_finite _ = False"

fun val :: "double \<Rightarrow> real" where
  "val (Finite x) = x"
| "val _ = 0"

text \<open>
  A datum is valid when the number it carries, if any, is a binary64 number. The lists
  and sequences of the functions below may hold any datum; the operations return
  valid ones.
\<close>

fun valid :: "double \<Rightarrow> bool" where
  "valid (Finite x) = binary64 x"
| "valid _ = True"

text \<open>
  The operations \<open>-x\<close>, \<open>x + y\<close>, \<open>x - y\<close>, \<open>x * y\<close>, \<open>x / y\<close> and \<open>sqrt(x)\<close>.
  An exact sum of zero has the sign bit set only if both operands have it set; the
  sign of a product or quotient is the exclusive or of the operands' signs.
\<close>

fun fneg :: "double \<Rightarrow> double" where
  "fneg (Finite x) = (if x = 0 then MZero else Finite (- x))"
| "fneg MZero = Finite 0"
| "fneg PInf = MInf"
| "fneg MInf = PInf"
| "fneg NaN = NaN"

definition fadd :: "double \<Rightarrow> double \<Rightarrow> double" where
  "fadd a b =
     (if a = NaN \<or> b = NaN then NaN
      else if is_inf a then (if is_inf b \<and> a \<noteq> b then NaN else a)
      else if is_inf b then b
      else if val a + val b = 0 then signed_zero (is_neg a \<and> is_neg b)
      else round64 (val a + val b < 0) (val a + val b))"

definition fsub :: "double \<Rightarrow> double \<Rightarrow> double" where
  "fsub a b = fadd a (fneg b)"

definition fmul :: "double \<Rightarrow> double \<Rightarrow> double" where
  "fmul a b =
     (if a = NaN \<or> b = NaN then NaN
      else if is_inf a \<or> is_inf b
        then (if is_zero a \<or> is_zero b then NaN else signed_inf (is_neg a \<noteq> is_neg b))
      else round64 (is_neg a \<noteq> is_neg b) (val a * val b))"

definition fdiv :: "double \<Rightarrow> double \<Rightarrow> double" where
  "fdiv a b =
     (if a = NaN \<or> b = NaN then NaN
      else if is_inf a then (if is_inf b then NaN else signed_inf (is_neg a \<noteq> is_neg b))
      else if is_inf b then signed_zero (is_neg a \<noteq> is_neg b)
      else if is_zero b then (if is_zero a then NaN else signed_inf (is_neg a \<noteq> is_neg b))
      else round64 (is_neg a \<noteq> is_neg b) (val a / val b))"

fun fsqrt :: "double \<Rightarrow> double" where
  "fsqrt (Finite x) = (if x < 0 then NaN else round64 False (sqrt x))"
| "fsqrt MZero = MZero"
| "fsqrt PInf = PInf"
| "fsqrt MInf = NaN"
| "fsqrt NaN = NaN"

text \<open>
The comparisons \<open>x >= y\<close> and \<open>x == y\<close>: false when an operand is a NaN.
\<close>

definition fge :: "double \<Rightarrow> double \<Rightarrow> bool" where
  "fge a b =
     (if a = NaN \<or> b = NaN then False
      else if a = PInf \<or> b = MInf then True
      else if a = MInf \<or> b = PInf then False
      else val b \<le> val a)"

definition feq :: "double \<Rightarrow> double \<Rightarrow> bool" where
  "feq a b =
     (if a = NaN \<or> b = NaN then False
      else if is_inf a \<or> is_inf b then a = b
      else val a = val b)"

subsection \<open>compute_dist\<close>

definition read_double :: "double list \<Rightarrow> int \<Rightarrow> double option" where
  "read_double a i = (if 0 \<le> i \<and> i < int (length a) then Some (a ! nat i) else None)"

text \<open>
  The loop \<^verbatim>\<open>for (i = 0; i < dim; i++) sq_dist += (vec1[i] - vec2[i])*(vec1[i] - vec2[i]);\<close>
  with the loop state \<open>(i, sq_dist)\<close>; \<open>sq_dist\<close> starts at \<^verbatim>\<open>0.\<close> and the function
  returns \<^verbatim>\<open>sqrt(sq_dist)\<close>.
\<close>

function compute_dist_loop :: "double list \<Rightarrow> double list \<Rightarrow> int \<Rightarrow> int \<Rightarrow> double \<Rightarrow> double option" where
  "compute_dist_loop vec1 vec2 dim' i sq_dist =
     (if i < dim' then
        (case read_double vec1 i of
           None \<Rightarrow> None
         | Some a \<Rightarrow>
             (case read_double vec2 i of
                None \<Rightarrow> None
              | Some b \<Rightarrow>
                  compute_dist_loop vec1 vec2 dim' (i + 1)
                    (fadd sq_dist (fmul (fsub a b) (fsub a b)))))
      else Some sq_dist)"
  by pat_completeness auto
termination
  by (relation "measure (\<lambda>(vec1, vec2, dim', i, sq_dist). nat (dim' - i))") auto

declare compute_dist_loop.simps [simp del]

definition compute_dist :: "double list \<Rightarrow> double list \<Rightarrow> int \<Rightarrow> double option" where
  "compute_dist vec1 vec2 dim' = map_option fsqrt (compute_dist_loop vec1 vec2 dim' 0 (Finite 0))"

text \<open>
  The sum of the first \<open>n\<close> squared differences as binary64 arithmetic accumulates it,
  in index order.
\<close>

primrec sq_dist_upto :: "double list \<Rightarrow> double list \<Rightarrow> nat \<Rightarrow> double" where
  "sq_dist_upto vec1 vec2 0 = Finite 0"
| "sq_dist_upto vec1 vec2 (Suc n) =
     fadd (sq_dist_upto vec1 vec2 n) (fmul (fsub (vec1 ! n) (vec2 ! n)) (fsub (vec1 ! n) (vec2 ! n)))"

text \<open>
  The Euclidean distance of the first \<open>n\<close> coordinates over the real numbers, as the
  specification names it: the square root of the sum of squared differences.
\<close>

definition euclidean :: "real list \<Rightarrow> real list \<Rightarrow> nat \<Rightarrow> real" where
  "euclidean x y n = sqrt (\<Sum>i<n. (x ! i - y ! i)\<^sup>2)"

text \<open>
  No operation of a run on the first \<open>n\<close> coordinates rounds, overflows or underflows:
  the entries are finite, and every difference, every square, every partial sum and the
  square root of the sum are binary64 numbers.
\<close>

definition no_rounding :: "double list \<Rightarrow> double list \<Rightarrow> nat \<Rightarrow> bool" where
  "no_rounding vec1 vec2 n \<longleftrightarrow>
     list_all (\<lambda>i. is_finite (vec1 ! i) \<and> is_finite (vec2 ! i) \<and>
                  binary64 (val (vec1 ! i) - val (vec2 ! i)) \<and>
                  binary64 ((val (vec1 ! i) - val (vec2 ! i))\<^sup>2) \<and>
                  binary64 (\<Sum>j\<le>i. (val (vec1 ! j) - val (vec2 ! j))\<^sup>2)) [0..<n] \<and>
     binary64 (sqrt (\<Sum>i<n. (val (vec1 ! i) - val (vec2 ! i))\<^sup>2))"

text \<open>
  The unit roundoff \<open>2^-53\<close>, and the exact results that binary64 rounds with a
  relative error of at most one unit roundoff: zero, and the reals of magnitude at least
  \<open>2^-1022\<close> (no underflow) that do not round to \<open>2^1024\<close> or beyond (no overflow).
\<close>

definition u64 :: real where
  "u64 = 1 / 2 ^ 53"

definition in_range :: "real \<Rightarrow> bool" where
  "in_range x \<longleftrightarrow> x = 0 \<or> (1 / 2 ^ 1022 \<le> \<bar>x\<bar> \<and> \<bar>nearest x\<bar> < 2 ^ 1024)"

text \<open>
  No operation of a run on the first \<open>n\<close> coordinates overflows or underflows: the
  entries are finite, and the exact value of every difference, of every square of a
  computed difference, of every sum of the accumulated \<open>sq_dist\<close> and a computed square,
  and of the square root of the final \<open>sq_dist\<close> is in range.
\<close>

definition no_over_underflow :: "double list \<Rightarrow> double list \<Rightarrow> nat \<Rightarrow> bool" where
  "no_over_underflow vec1 vec2 n \<longleftrightarrow>
     list_all (\<lambda>i. is_finite (vec1 ! i) \<and> is_finite (vec2 ! i) \<and>
                  in_range (val (vec1 ! i) - val (vec2 ! i)) \<and>
                  in_range (val (fsub (vec1 ! i) (vec2 ! i)) * val (fsub (vec1 ! i) (vec2 ! i))) \<and>
                  in_range (val (sq_dist_upto vec1 vec2 i) +
                            val (fmul (fsub (vec1 ! i) (vec2 ! i)) (fsub (vec1 ! i) (vec2 ! i))))) [0..<n] \<and>
     in_range (sqrt (val (sq_dist_upto vec1 vec2 n)))"

subsection \<open>matmul\<close>

text \<open>
  \<open>DGEMM\<close> is the BLAS routine declared \<^verbatim>\<open>extern\<close> in util.h; it is not part of
  the repository and is a parameter of the model. Its Fortran interface takes every
  scalar by reference; the model passes the values. The buffers \<open>A\<close>, \<open>B\<close>, \<open>C\<close>
  are lists, and the routine returns the new contents of \<open>C\<close>.
\<close>

type_synonym dgemm_routine =
  "char \<Rightarrow> char \<Rightarrow> int \<Rightarrow> int \<Rightarrow> int \<Rightarrow> real \<Rightarrow> real list \<Rightarrow> int \<Rightarrow> real list \<Rightarrow> int \<Rightarrow> real \<Rightarrow> real list \<Rightarrow> int \<Rightarrow> real list"

definition matmul :: "dgemm_routine \<Rightarrow> int \<Rightarrow> int \<Rightarrow> int \<Rightarrow> real list \<Rightarrow> real list \<Rightarrow> real list \<Rightarrow> real list" where
  "matmul DGEMM M N K A B C =
     (let TRANSA = CHR ''T'';
          TRANSB = CHR ''N'';
          ALPHA = 1;
          BETA = 0;
          LDA = K;
          LDB = K;
          LDC = M
      in DGEMM TRANSA TRANSB M N K ALPHA A LDA B LDB BETA C LDC)"

text \<open>
  Modelled from the spec: the external dense linear-algebra routine, which is contracted
  to compute \<open>C = A\<^sup>T B\<close>. Called with \<open>transa = 'T'\<close>, \<open>transb = 'N'\<close>,
  \<open>alpha = 1\<close> and \<open>beta = 0\<close> on column-major buffers (\<open>A\<close> with \<open>k\<close> rows and
  \<open>m\<close> columns at leading dimension \<open>lda\<close>, \<open>B\<close> with \<open>k\<close> rows and \<open>n\<close>
  columns at \<open>ldb\<close>, \<open>C\<close> with \<open>m\<close> rows and \<open>n\<close> columns at \<open>ldc\<close>), it keeps
  the size of \<open>C\<close> and stores at row \<open>i\<close>, column \<open>j\<close> of \<open>C\<close> the inner product
  of column \<open>i\<close> of \<open>A\<close> and column \<open>j\<close> of \<open>B\<close>.
\<close>

definition dgemm_AtB_contract :: "dgemm_routine \<Rightarrow> bool" where
  "dgemm_AtB_contract DGEMM \<longleftrightarrow>
     (\<forall>m n k A lda B ldb C ldc.
        0 \<le> m \<and> 0 \<le> n \<and> 0 \<le> k \<and> k \<le> lda \<and> k \<le> ldb \<and> m \<le> ldc \<and>
        lda * m \<le> int (length A) \<and> ldb * n \<le> int (length B) \<and> ldc * n \<le> int (length C) \<longrightarrow>
        length (DGEMM CHR ''T'' CHR ''N'' m n k 1 A lda B ldb 0 C ldc) = length C \<and>
        (\<forall>i j. 0 \<le> i \<and> i < m \<and> 0 \<le> j \<and> j < n \<longrightarrow>
           DGEMM CHR ''T'' CHR ''N'' m n k 1 A lda B ldb 0 C ldc ! nat (i + j * ldc) =
             (\<Sum>l = 0..<nat k. A ! nat (int l + i * lda) * B ! nat (int l + j * ldb))))"

text \<open>
  A routine that meets the contract (the general \<open>C := alpha * op(A) * op(B) + beta * C\<close>
  of the BLAS interface, entry by entry), used to instantiate the parameter.
\<close>

definition dgemm_ref :: dgemm_routine where
  "dgemm_ref transa transb m n k alpha A lda B ldb beta C ldc =
     map (\<lambda>idx.
            let i = int idx mod ldc; j = int idx div ldc
            in if i < m \<and> j < n
               then alpha * sum_list (map (\<lambda>l.
                        (if transa = CHR ''N'' then A ! nat (i + int l * lda) else A ! nat (int l + i * lda)) *
                        (if transb = CHR ''N'' then B ! nat (int l + j * ldb) else B ! nat (j + int l * ldb)))
                      [0..<nat k])
                    + beta * C ! idx
               else C ! idx)
         [0..<length C]"

subsection \<open>rand_normal in binary64 arithmetic\<close>

text \<open>
  \<open>rand_normal\<close> keeps \<^verbatim>\<open>static double V1, V2, S; static int phase = 0;\<close> between
  calls. The record below holds these statics, together with the number of values
  the C library's \<open>drand48\<close> has handed out so far. \<open>drand48\<close> and \<open>log\<close> belong to
  the C library and are parameters of the model: \<open>drand48 :: nat \<Rightarrow> double\<close> is the
  sequence of values the generator returns, a call reading the entry at position
  \<open>drawn_d\<close> and advancing \<open>drawn_d\<close> by one, and \<open>clog :: double \<Rightarrow> double\<close> is the
  library's logarithm. The names carry the suffix \<open>_d\<close>; the names without it are those
  of the idealisation over the real numbers in the next subsection.
\<close>

record rn_state_d =
  V1_d :: double
  V2_d :: double
  S_d :: double
  phase_d :: int
  drawn_d :: nat

text \<open>
Statics without an initialiser start at zero; \<open>phase\<close> is initialised to 0.
\<close>

definition rn_init_d :: "nat \<Rightarrow> rn_state_d" where
  "rn_init_d n = \<lparr>V1_d = Finite 0, V2_d = Finite 0, S_d = Finite 0, phase_d = 0, drawn_d = n\<rparr>"

text \<open>
  One pass through the body of the \<^verbatim>\<open>do { ... } while (S >= 1 || S == 0)\<close> loop:
  \<^verbatim>\<open>U1 = drand48(); U2 = drand48(); V1 = 2 * U1 - 1; V2 = 2 * U2 - 1; S = V1 * V1 + V2 * V2;\<close>
\<close>

definition rn_draw_pair_d :: "(nat \<Rightarrow> double) \<Rightarrow> rn_state_d \<Rightarrow> rn_state_d" where
  "rn_draw_pair_d drand48 st =
     (let U1 = drand48 (drawn_d st);
          U2 = drand48 (drawn_d st + 1);
          v1 = fsub (fmul (Finite 2) U1) (Finite 1);
          v2 = fsub (fmul (Finite 2) U2) (Finite 1)
      in st\<lparr>V1_d := v1, V2_d := v2, S_d := fadd (fmul v1 v1) (fmul v2 v2),
             drawn_d := drawn_d st + 2\<rparr>)"

text \<open>
  The loop tests the \<open>S\<close> it has stored, a rounded sum of rounded squares. It need not
  end (every pair may be rejected): not returning is \<open>None\<close>.
\<close>

partial_function (option) rand_normal_loop_d :: "(nat \<Rightarrow> double) \<Rightarrow> rn_state_d \<Rightarrow> rn_state_d option" where
  "rand_normal_loop_d drand48 st =
     (if fge (S_d (rn_draw_pair_d drand48 st)) (Finite 1) \<or> feq (S_d (rn_draw_pair_d drand48 st)) (Finite 0)
      then rand_normal_loop_d drand48 (rn_draw_pair_d drand48 st)
      else Some (rn_draw_pair_d drand48 st))"

text \<open>
  The two branches \<^verbatim>\<open>X = V1 * sqrt(-2 * log(S) / S)\<close> and
  \<^verbatim>\<open>X = V2 * sqrt(-2 * log(S) / S)\<close>, then \<^verbatim>\<open>phase = 1 - phase; return X;\<close>
\<close>

definition rand_normal_d ::
  "(double \<Rightarrow> double) \<Rightarrow> (nat \<Rightarrow> double) \<Rightarrow> rn_state_d \<Rightarrow> (double \<times> rn_state_d) option" where
  "rand_normal_d clog drand48 st =
     (if phase_d st = 0 then
        (case rand_normal_loop_d drand48 st of
           None \<Rightarrow> None
         | Some st' \<Rightarrow>
             Some (fmul (V1_d st') (fsqrt (fdiv (fmul (Finite (- 2)) (clog (S_d st'))) (S_d st'))),
                   st'\<lparr>phase_d := 1 - phase_d st'\<rparr>))
      else
        Some (fmul (V2_d st) (fsqrt (fdiv (fmul (Finite (- 2)) (clog (S_d st))) (S_d st))),
              st\<lparr>phase_d := 1 - phase_d st\<rparr>))"

text \<open>
A pair of draws starting at position \<open>n\<close> is rejected by the loop condition.
\<close>

definition rn_rejected_d :: "(nat \<Rightarrow> double) \<Rightarrow> nat \<Rightarrow> bool" where
  "rn_rejected_d drand48 n =
     (let v1 = fsub (fmul (Finite 2) (drand48 n)) (Finite 1);
          v2 = fsub (fmul (Finite 2) (drand48 (n + 1))) (Finite 1);
          s = fadd (fmul v1 v1) (fmul v2 v2)
      in fge s (Finite 1) \<or> feq s (Finite 0))"

text \<open>
  The states the statics can be in: the initial one, the one after a call that
  returned, and (since other code of the program draws from \<open>drand48\<close> as well) any of
  these with more values drawn.
\<close>

inductive rn_reachable_d :: "(double \<Rightarrow> double) \<Rightarrow> (nat \<Rightarrow> double) \<Rightarrow> rn_state_d \<Rightarrow> bool"
  for clog :: "double \<Rightarrow> double" and drand48 :: "nat \<Rightarrow> double" where
  rn_start_d: "rn_reachable_d clog drand48 (rn_init_d n)"
| rn_call_d: "rn_reachable_d clog drand48 st \<Longrightarrow> rand_normal_d clog drand48 st = Some (x, st') \<Longrightarrow>
              rn_reachable_d clog drand48 st'"
| rn_other_d: "rn_reachable_d clog drand48 st \<Longrightarrow>
               rn_reachable_d clog drand48 (st\<lparr>drawn_d := drawn_d st + m\<rparr>)"

code_pred rn_reachable_d .

text \<open>
  The invariant of the statics between calls: at \<open>phase = 1\<close> the cached \<open>S\<close> is a
  number strictly between 0 and 1.
\<close>

fun in_unit :: "double \<Rightarrow> bool" where
  "in_unit (Finite s) = (0 < s \<and> s < 1)"
| "in_unit _ = False"

definition rn_inv_d :: "rn_state_d \<Rightarrow> bool" where
  "rn_inv_d st \<longleftrightarrow> phase_d st = 0 \<or> (phase_d st = 1 \<and> in_unit (S_d st))"

text \<open>
  A logarithm to instantiate the parameter \<open>clog\<close> with: the correctly rounded one,
  with \<open>log(0) = -inf\<close> and a NaN for a negative argument.
\<close>

definition log_nearest :: "double \<Rightarrow> double" where
  "log_nearest a =
     (if a = NaN \<or> a = MInf then NaN
      else if a = PInf then PInf
      else if val a = 0 then MInf
      else if val a < 0 then NaN
      else round64 False (ln (val a)))"

text \<open>
  A sequence of draws whose first pair is rejected by rounding alone. With
  \<open>V1 = 1 - 2^-47\<close> and \<open>V2 = 2^-23 - 2^-47\<close> the sum of the exact
  squares is below 1, while binary64 rounds \<open>V1 * V1\<close> to \<open>1 - 2^-46\<close> and the sum
  to \<open>1.0\<close>, which the loop rejects. The second pair gives \<open>V1 = 0.5\<close>, \<open>V2 = 0\<close> and
  \<open>S = 0.25\<close>.
\<close>

definition ex_stream :: "nat \<Rightarrow> double" where
  "ex_stream n =
     (if n = 0 then Finite (1 - 1 / 2 ^ 48)
      else if n = 1 then Finite (1 / 2 + 1 / 2 ^ 24 - 1 / 2 ^ 48)
      else if n = 2 then Finite (3 / 4)
      else if n = 3 then Finite (1 / 2)
      else Finite 0)"

subsection \<open>rand_normal over the real numbers\<close>

text \<open>
  The same function with every operation exact: the statics hold real numbers,
  \<open>drand48 :: nat \<Rightarrow> real\<close> is the sequence of values the generator returns, and
  \<open>log\<close> is the natural logarithm. The loop stores \<open>S\<close> and tests what it has stored,
  here as in binary64 arithmetic, so that the bound the test leaves on the stored \<open>S\<close>
  can be read off this idealisation, in which a number is never a NaN. Which pairs the
  test rejects is a matter of rounding and is settled on the binary64 model above, where
  the same bound holds when \<open>drand48\<close> returns no NaN.
\<close>

record rn_state =
  V1 :: real
  V2 :: real
  S :: real
  phase :: int
  drawn :: nat







text \<open>
A pair of draws starting at position \<open>n\<close> is rejected by the loop condition.
\<close>

definition rn_rejected :: "(nat \<Rightarrow> real) \<Rightarrow> nat \<Rightarrow> bool" where
  "rn_rejected drand48 n =
     (let v1 = 2 * drand48 n - 1; v2 = 2 * drand48 (n + 1) - 1
      in v1 * v1 + v2 * v2 \<ge> 1 \<or> v1 * v1 + v2 * v2 = 0)"


section \<open>Properties\<close>

subsection \<open>binary64 numbers and rounding\<close>

lemma pow2_powr: "pow2 q = 2 powr of_int q"
proof (cases "0 \<le> q")
  case True
  then show ?thesis by (simp add: pow2_def powr_realpow [symmetric])
next
  case False
  then have "2 powr of_int q = 2 powr (- real (nat (- q)))" by simp
  also have "\<dots> = 1 / 2 ^ nat (- q)" 
    by (simp add: powr_minus powr_realpow divide_inverse)
  finally show ?thesis using False by (simp add: pow2_def)
qed

lemma pow2_pos [simp]: "0 < pow2 q"
  by (simp add: pow2_powr)

lemma pow2_nonzero [simp]: "pow2 q \<noteq> 0"
  by (simp add: pow2_powr)

lemma pow2_nonneg [simp]: "0 \<le> pow2 q"
  by (simp add: pow2_powr)

lemma pow2_add: "pow2 (a + b) = pow2 a * pow2 b"
  by (simp add: pow2_powr powr_add)

lemma pow2_diff: "pow2 (a - b) = pow2 a / pow2 b"
  by (simp add: pow2_powr powr_diff)

lemma pow2_nat: "0 \<le> q \<Longrightarrow> pow2 q = of_int (2 ^ nat q)"
  by (simp add: pow2_def)

lemma pow2_mono: "a \<le> b \<Longrightarrow> pow2 a \<le> pow2 b"
  by (simp add: pow2_powr)

text \<open>
  \<open>round_even\<close> returns an integer nearest to its argument.
\<close>

lemma round_even_of_int [simp]: "round_even (of_int m) = m"
  by (simp add: round_even_def)

lemma round_even_nonneg: "0 \<le> x \<Longrightarrow> 0 \<le> round_even x"
  by (simp add: round_even_def Let_def)

lemma round_even_error: "\<bar>of_int (round_even x) - x\<bar> \<le> 1 / 2"
  by (simp add: round_even_def Let_def)

lemma round_even_bound:
  assumes "\<bar>x\<bar> \<le> of_int N"
  shows "\<bar>round_even x\<bar> \<le> N"
proof -
  have "\<lfloor>x\<rfloor> \<le> round_even x" "round_even x \<le> \<lceil>x\<rceil>"
    by (simp_all add: round_even_def Let_def ceiling_altdef) 
  moreover have "- N \<le> \<lfloor>x\<rfloor>" "\<lceil>x\<rceil> \<le> N"
    using assms by (simp_all add: le_floor_iff ceiling_le_iff abs_le_iff)
  ultimately show ?thesis by linarith
qed

lemma round_even_nearest: "\<bar>of_int (round_even x) - x\<bar> \<le> \<bar>of_int k - x\<bar>"
proof -
  have "k \<le> \<lfloor>x\<rfloor> \<or> \<lfloor>x\<rfloor> + 1 \<le> k" by linarith
  then show ?thesis
  proof
    assume "k \<le> \<lfloor>x\<rfloor>"
    then have "real_of_int k \<le> of_int \<lfloor>x\<rfloor>" by simp
    then show ?thesis by (simp add: round_even_def Let_def) linarith
  next
    assume "\<lfloor>x\<rfloor> + 1 \<le> k"
    then have "real_of_int \<lfloor>x\<rfloor> + 1 \<le> of_int k" by linarith
    then show ?thesis by (simp add: round_even_def Let_def) linarith
  qed
qed

lemma nearest_nonneg: "0 \<le> x \<Longrightarrow> 0 \<le> nearest x"
  by (simp add: nearest_def round_even_nonneg)

lemma nearest_zero [simp]: "nearest 0 = 0"
  by (simp add: nearest_def round_even_def)

text \<open>
  Rounding a real whose binary exponent is known: between \<open>2\<^sup>e\<close> and \<open>2^(e+1)\<close> the
  grid has the exponent \<open>max (e - 52) (-1074)\<close>.
\<close>

lemma ulp_exponent_eq:
  assumes "pow2 e \<le> \<bar>x\<bar>" "\<bar>x\<bar> < pow2 (e + 1)"
  shows "ulp_exponent x = max (e - 52) (- 1074)"
proof -
  have "0 < \<bar>x\<bar>" using assms(1) pow2_pos [of e] by linarith
  then have "\<lfloor>log 2 \<bar>x\<bar>\<rfloor> = e"
    using assms by (subst floor_log_eq_powr_iff) (simp_all add: pow2_powr)
  then show ?thesis by (simp add: ulp_exponent_def)
qed

lemma nearest_eval:
  assumes "pow2 e \<le> \<bar>x\<bar>" "\<bar>x\<bar> < pow2 (e + 1)"
  shows "nearest x = of_int (round_even (x / pow2 (max (e - 52) (- 1074)))) * pow2 (max (e - 52) (- 1074))"
  unfolding nearest_def ulp_exponent_eq [OF assms] ..

text \<open>
  The binary64 numbers are exactly the multiples \<open>m * 2\<^sup>q\<close> with \<open>\<bar>m\<bar> < 2^53\<close> and
  \<open>-1074 \<le> q \<le> 971\<close>.
\<close>

lemma ulp_exponent_le:
  assumes "\<bar>m\<bar> < 2 ^ 53" "- 1074 \<le> q" "m \<noteq> 0"
  shows "ulp_exponent (of_int m * pow2 q) \<le> q"
proof -
  let ?x = "of_int m * pow2 q :: real"
  have pos: "0 < \<bar>?x\<bar>" using assms(3) by simp
  have "\<bar>?x\<bar> = \<bar>of_int m\<bar> * pow2 q" by (simp add: abs_mult)
  also have "\<dots> < 2 ^ 53 * pow2 q"
  proof -
    have "\<bar>real_of_int m\<bar> < 2 ^ 53" using assms(1) by (metis of_int_abs of_int_less_numeral_power_cancel_iff)
    then show ?thesis by simp
  qed
  also have "\<dots> = 2 powr (53 + of_int q)"
    by (simp add: pow2_powr powr_add)
  finally have "log 2 \<bar>?x\<bar> < 53 + of_int q"
    using pos by (simp add: log_less_iff)
  then have "\<lfloor>log 2 \<bar>?x\<bar>\<rfloor> < 53 + q" by linarith
  then show ?thesis using assms(2) by (simp add: ulp_exponent_def)
qed

lemma nearest_exact:
  assumes "\<bar>m\<bar> < 2 ^ 53" "- 1074 \<le> q"
  shows "nearest (of_int m * pow2 q) = of_int m * pow2 q"
proof (cases "m = 0")
  case True
  then show ?thesis by simp
next
  case False
  let ?x = "of_int m * pow2 q :: real"
  let ?u = "ulp_exponent ?x"
  have le: "?u \<le> q" using assms False by (rule ulp_exponent_le)
  have "?x / pow2 ?u = of_int m * pow2 (q - ?u)" by (simp add: pow2_diff)
  also have "\<dots> = of_int (m * 2 ^ nat (q - ?u))"
    using le by (simp add: pow2_nat)
  finally have "round_even (?x / pow2 ?u) = m * 2 ^ nat (q - ?u)"
    by (simp only: round_even_of_int)
  then have "nearest ?x = of_int (m * 2 ^ nat (q - ?u)) * pow2 ?u"
    by (simp only: nearest_def)
  also have "\<dots> = of_int m * (pow2 (q - ?u) * pow2 ?u)"
    using le by (simp add: pow2_nat)
  also have "\<dots> = ?x" by (simp add: pow2_add [symmetric])
  finally show ?thesis .
qed

lemma binary64_of_int: "\<bar>m\<bar> < 2 ^ 53 \<Longrightarrow> binary64 (of_int m)"
proof -
  assume a: "\<bar>m\<bar> < 2 ^ 53"
  have "nearest (of_int m * pow2 0) = of_int m * pow2 0"
    using a by (rule nearest_exact) simp
  then have n: "nearest (of_int m) = of_int m" by (simp add: pow2_def)
  have "\<bar>real_of_int m\<bar> < 2 ^ 53" using a by (metis of_int_abs of_int_less_numeral_power_cancel_iff)
  also have "(2::real) ^ 53 < 2 ^ 1024" by simp
  finally show ?thesis using n by (simp add: binary64_def)
qed

lemma binary64_dyadic:
  assumes "\<bar>m\<bar> < 2 ^ 53" "- 1074 \<le> q" "q \<le> 971"
  shows "binary64 (of_int m * pow2 q)"
proof -
  have "\<bar>real_of_int m\<bar> < 2 ^ 53"
    using assms(1) by (metis of_int_abs of_int_less_numeral_power_cancel_iff)
  then have "\<bar>real_of_int m\<bar> * pow2 q < 2 ^ 53 * pow2 q"
    by (intro mult_strict_right_mono) simp_all
  also have "\<dots> \<le> 2 ^ 53 * pow2 971"
    using pow2_mono [OF assms(3)] by (intro mult_left_mono) simp_all
  also have "\<dots> = 2 ^ 1024" by (simp add: pow2_def)
  finally have "\<bar>of_int m * pow2 q\<bar> < 2 ^ 1024" by (simp add: abs_mult)
  then show ?thesis using nearest_exact [OF assms(1,2)] by (simp add: binary64_def)
qed

lemma binary64_is_dyadic:
  assumes "binary64 x"
  shows "\<exists>m q. \<bar>m\<bar> < 2 ^ 53 \<and> - 1074 \<le> q \<and> q \<le> 971 \<and> x = of_int m * pow2 q"
proof (cases "x = 0")
  case True
  then have "\<bar>0::int\<bar> < 2 ^ 53 \<and> - 1074 \<le> (0::int) \<and> (0::int) \<le> 971 \<and> x = of_int 0 * pow2 0"
    by simp
  then show ?thesis by blast
next
  case False
  let ?e = "\<lfloor>log 2 \<bar>x\<bar>\<rfloor>"
  let ?u = "ulp_exponent x"
  let ?n = "round_even (x / pow2 ?u)"
  have pos: "0 < \<bar>x\<bar>" using False by simp
  have x: "x = of_int ?n * pow2 ?u"
    using assms by (simp add: binary64_def nearest_def)
  have lt: "\<bar>x\<bar> < 2 ^ 1024" using assms by (simp add: binary64_def)
  have up: "\<bar>x\<bar> < 2 powr (of_int ?e + 1)"
  proof -
    have h: "log 2 \<bar>x\<bar> < of_int ?e + 1" by linarith
    show ?thesis by (rule iffD1 [OF log_less_iff [OF _ pos] h]) simp
  qed
  have u_ge: "?e - 52 \<le> ?u" "- 1074 \<le> ?u" by (simp_all add: ulp_exponent_def)
  have "log 2 \<bar>x\<bar> < 1024"
  proof -
    have "\<bar>x\<bar> < 2 powr 1024" using lt by simp
    then show ?thesis using pos by (simp add: log_less_iff)
  qed
  then have "?e \<le> 1023" by linarith
  then have u_le: "?u \<le> 971" by (simp add: ulp_exponent_def)
  have "\<bar>real_of_int ?n\<bar> * pow2 ?u = \<bar>x\<bar>"
    using x by (metis abs_mult abs_of_pos pow2_pos)
  also have "\<dots> < 2 powr (of_int ?e + 1)" by (rule up)
  also have "\<dots> \<le> 2 powr (of_int ?u + 53)"
    using u_ge(1) by simp
  also have "\<dots> = 2 ^ 53 * pow2 ?u"
    by (simp add: pow2_powr powr_add)
  finally have "\<bar>real_of_int ?n\<bar> < 2 ^ 53" by simp
  then have "\<bar>?n\<bar> < 2 ^ 53"
    by (metis of_int_abs of_int_less_numeral_power_cancel_iff)
  with u_ge(2) u_le x show ?thesis by blast
qed

lemma binary64_iff:
  "binary64 x \<longleftrightarrow> (\<exists>m q. \<bar>m\<bar> < 2 ^ 53 \<and> - 1074 \<le> q \<and> q \<le> 971 \<and> x = of_int m * pow2 q)"
  using binary64_is_dyadic binary64_dyadic by blast

lemma binary64_zero [simp]: "binary64 0"
  by (simp add: binary64_def)

lemma binary64_minus: "binary64 x \<Longrightarrow> binary64 (- x)"
proof -
  assume "binary64 x"
  then obtain m q where "\<bar>m\<bar> < 2 ^ 53" "- 1074 \<le> q" "q \<le> 971" "x = of_int m * pow2 q"
    using binary64_is_dyadic by blast
  then have "\<bar>- m\<bar> < 2 ^ 53" "- x = of_int (- m) * pow2 q" by simp_all
  then show ?thesis using binary64_dyadic \<open>- 1074 \<le> q\<close> \<open>q \<le> 971\<close> by metis
qed

text \<open>
  \<open>nearest x\<close> is within half a grid step of \<open>x\<close>, no multiple \<open>m * 2\<^sup>q\<close> with
  \<open>\<bar>m\<bar> < 2^53\<close> and \<open>-1074 \<le> q\<close> is nearer to \<open>x\<close>, and rounding twice rounds once.
\<close>

lemma nearest_error: "\<bar>nearest x - x\<bar> \<le> pow2 (ulp_exponent x) / 2"
proof -
  let ?u = "ulp_exponent x"
  have "nearest x - x = (of_int (round_even (x / pow2 ?u)) - x / pow2 ?u) * pow2 ?u"
    by (simp add: nearest_def algebra_simps)
  then have "\<bar>nearest x - x\<bar> = \<bar>of_int (round_even (x / pow2 ?u)) - x / pow2 ?u\<bar> * pow2 ?u"
    by (simp add: abs_mult)
  also have "\<dots> \<le> 1 / 2 * pow2 ?u"
    by (intro mult_right_mono round_even_error) simp
  finally show ?thesis by simp
qed

lemma nearest_on_grid:
  "\<bar>nearest x - x\<bar> \<le> \<bar>of_int k * pow2 (ulp_exponent x) - x\<bar>"
proof -
  let ?u = "ulp_exponent x"
  have "\<bar>nearest x - x\<bar> = \<bar>of_int (round_even (x / pow2 ?u)) - x / pow2 ?u\<bar> * pow2 ?u"
  proof -
    have "nearest x - x = (of_int (round_even (x / pow2 ?u)) - x / pow2 ?u) * pow2 ?u"
      by (simp add: nearest_def algebra_simps)
    then show ?thesis by (simp add: abs_mult)
  qed
  also have "\<dots> \<le> \<bar>of_int k - x / pow2 ?u\<bar> * pow2 ?u"
    by (intro mult_right_mono round_even_nearest) simp
  also have "\<dots> = \<bar>of_int k * pow2 ?u - x\<bar>"
  proof -
    have "of_int k * pow2 ?u - x = (of_int k - x / pow2 ?u) * pow2 ?u"
      by (simp add: algebra_simps)
    then show ?thesis by (simp add: abs_mult)
  qed
  finally show ?thesis .
qed

lemma nearest_is_nearest:
  assumes "\<bar>m\<bar> < 2 ^ 53" "- 1074 \<le> q"
  shows "\<bar>nearest x - x\<bar> \<le> \<bar>of_int m * pow2 q - x\<bar>"
proof (cases "x = 0")
  case True
  then show ?thesis by simp
next
  case x0: False
  show ?thesis
  proof (cases "ulp_exponent x \<le> q")
    case True
    let ?u = "ulp_exponent x"
    have "of_int m * pow2 q = of_int m * pow2 (q - ?u) * pow2 ?u"
      by (simp add: pow2_diff)
    also have "\<dots> = of_int (m * 2 ^ nat (q - ?u)) * pow2 ?u"
      using True by (simp add: pow2_nat)
    finally have eq: "of_int m * pow2 q = of_int (m * 2 ^ nat (q - ?u)) * pow2 ?u" .
    show ?thesis unfolding eq by (rule nearest_on_grid)
  next
    case False
    let ?e = "\<lfloor>log 2 \<bar>x\<bar>\<rfloor>"
    let ?u = "ulp_exponent x"
    let ?y = "of_int m * pow2 q :: real"
    have u: "?u = ?e - 52" using False assms(2) by (simp add: ulp_exponent_def max_def split: if_splits)
    have pos: "0 < \<bar>x\<bar>" using x0 by simp
    have lo: "pow2 ?e \<le> \<bar>x\<bar>"
    proof -
      have "of_int ?e \<le> log 2 \<bar>x\<bar>" by simp
      then have "2 powr of_int ?e \<le> \<bar>x\<bar>"
        by (rule iffD1 [OF le_log_iff [OF _ pos], rotated]) simp
      then show ?thesis by (simp add: pow2_powr)
    qed
    have "\<bar>?y\<bar> = \<bar>real_of_int m\<bar> * pow2 q" by (simp add: abs_mult)
    also have "\<dots> < 2 ^ 53 * pow2 q"
    proof -
      have "\<bar>real_of_int m\<bar> < 2 ^ 53"
        using assms(1) by (metis of_int_abs of_int_less_numeral_power_cancel_iff)
      then show ?thesis by simp
    qed
    also have "\<dots> \<le> 2 ^ 53 * pow2 (?u - 1)"
    proof -
      have "q \<le> ?u - 1" using False by simp
      then have "pow2 q \<le> pow2 (?u - 1)" by (rule pow2_mono)
      then show ?thesis by simp
    qed
    also have "\<dots> = pow2 ?e"
    proof -
      have "pow2 53 = 2 ^ 53" by (simp add: pow2_def)
      moreover have "?e = 53 + (?u - 1)" using u by simp
      ultimately show ?thesis by (metis pow2_add)
    qed
    finally have y: "\<bar>?y\<bar> < pow2 ?e" .
    have g: "pow2 ?e = of_int (2 ^ 52) * pow2 ?u"
    proof -
      have "pow2 52 = of_int (2 ^ 52)" by (simp add: pow2_def)
      moreover have "?e = 52 + ?u" using u by simp
      ultimately show ?thesis by (metis pow2_add)
    qed
    show ?thesis
    proof (cases "0 < x")
      case True
      have "\<bar>nearest x - x\<bar> \<le> \<bar>of_int (2 ^ 52) * pow2 ?u - x\<bar>" by (rule nearest_on_grid)
      also have "\<dots> = x - pow2 ?e" using lo True unfolding g [symmetric] by simp
      also have "\<dots> \<le> \<bar>?y - x\<bar>" using y by linarith
      finally show ?thesis .
    next
      case False
      then have neg: "x < 0" using x0 by simp
      have "\<bar>nearest x - x\<bar> \<le> \<bar>of_int (- (2 ^ 52)) * pow2 ?u - x\<bar>" by (rule nearest_on_grid)
      also have "\<dots> = \<bar>- pow2 ?e - x\<bar>" unfolding g by simp
      also have "\<dots> = - x - pow2 ?e" using lo neg by simp
      also have "\<dots> \<le> \<bar>?y - x\<bar>" using y by linarith
      finally show ?thesis .
    qed
  qed
qed

lemma nearest_idem: "nearest (nearest x) = nearest x"
proof (cases "x = 0")
  case True
  then show ?thesis by simp
next
  case False
  let ?e = "\<lfloor>log 2 \<bar>x\<bar>\<rfloor>"
  let ?u = "ulp_exponent x"
  let ?n = "round_even (x / pow2 ?u)"
  have pos: "0 < \<bar>x\<bar>" using False by simp
  have u_ge: "?e - 52 \<le> ?u" "- 1074 \<le> ?u" by (simp_all add: ulp_exponent_def)
  have h: "log 2 \<bar>x\<bar> < of_int ?e + 1" by linarith
  have "\<bar>x\<bar> < 2 powr (of_int ?e + 1)"
    by (rule iffD1 [OF log_less_iff [OF _ pos] h]) simp
  also have "\<dots> \<le> 2 powr (of_int ?u + 53)"
    using u_ge(1) by simp
  also have "\<dots> = 2 ^ 53 * pow2 ?u"
    by (simp add: pow2_powr powr_add)
  finally have "\<bar>x\<bar> / pow2 ?u < 2 ^ 53"
    by (simp add: field_simps)
  then have "\<bar>x / pow2 ?u\<bar> \<le> of_int (2 ^ 53)" by simp
  then have n: "\<bar>?n\<bar> \<le> 2 ^ 53" by (rule round_even_bound)
  have eq: "nearest x = of_int ?n * pow2 ?u" by (simp add: nearest_def)
  show ?thesis
  proof (cases "\<bar>?n\<bar> < 2 ^ 53")
    case True
    then show ?thesis unfolding eq using u_ge(2) by (rule nearest_exact)
  next
    case False
    with n have "\<bar>?n\<bar> = 2 ^ 53" by simp
    then consider "?n = 2 ^ 53" | "?n = - (2 ^ 53)" by linarith
    moreover have "pow2 53 = 2 ^ 53" by (simp add: pow2_def)
    then have "pow2 (?u + 53) = pow2 ?u * 2 ^ 53" by (simp add: pow2_add)
    ultimately have "of_int ?n * pow2 ?u = of_int (sgn ?n) * pow2 (?u + 53)"
      by cases simp_all
    moreover have "nearest (of_int (sgn ?n) * pow2 (?u + 53)) = of_int (sgn ?n) * pow2 (?u + 53)"
      using u_ge(2) by (intro nearest_exact) (simp_all add: sgn_if)
    ultimately show ?thesis unfolding eq by simp
  qed
qed

text \<open>
  An operation whose exact value is a binary64 number returns that number, and every
  operation returns a valid datum.
\<close>

lemma round64_binary64:
  "binary64 x \<Longrightarrow> round64 neg x = (if x = 0 then signed_zero neg else Finite x)"
  by (simp add: binary64_def round64_def Let_def)

lemma round64_not_NaN [simp]: "round64 neg x \<noteq> NaN"
  by (simp add: round64_def Let_def signed_zero_def signed_inf_def)

lemma round64_nonneg:
  assumes "0 \<le> x"
  shows "round64 False x = PInf \<or> (\<exists>s. round64 False x = Finite s \<and> 0 \<le> s)"
  using nearest_nonneg [OF assms]
  by (auto simp: round64_def Let_def signed_zero_def signed_inf_def)

lemma valid_round64 [simp]: "valid (round64 neg x)"
  by (simp add: round64_def Let_def signed_zero_def signed_inf_def binary64_def nearest_idem)

lemma valid_operations:
  "valid a \<Longrightarrow> valid (fneg a)"
  "valid a \<Longrightarrow> valid b \<Longrightarrow> valid (fadd a b)"
  "valid a \<Longrightarrow> valid b \<Longrightarrow> valid (fsub a b)"
  "valid (fmul a b)"
  "valid (fdiv a b)"
  "valid (fsqrt a)"
proof -
  show neg: "valid a \<Longrightarrow> valid (fneg a)" for a
    by (cases a) (simp_all add: binary64_minus)
  show add: "valid a \<Longrightarrow> valid b \<Longrightarrow> valid (fadd a b)" for a b
    by (simp add: fadd_def signed_zero_def)
  show "valid a \<Longrightarrow> valid b \<Longrightarrow> valid (fsub a b)"
    by (simp add: fsub_def add neg)
  show "valid (fmul a b)"
    by (simp add: fmul_def signed_inf_def)
  show "valid (fdiv a b)"
    by (simp add: fdiv_def signed_inf_def signed_zero_def)
  show "valid (fsqrt a)"
    by (cases a) simp_all
qed

text \<open>
  The precision, the subnormal range and the overflow threshold at their boundaries:
  \<open>2^53 + 1\<close> and \<open>2^53 + 3\<close> are ties and go to the even neighbour,
  \<open>2^-1074\<close> is the least positive number, half of it rounds to a zero that keeps
  the sign, \<open>2^1024 - 2^971\<close> is the greatest finite number and the midpoint
  between it and \<open>2^1024\<close> overflows; \<open>1/3\<close> is not a binary64 number and rounds
  to \<open>6004799503160661 / 2^54\<close>.
\<close>

lemma nearest_landmarks:
  "nearest (2 ^ 53 + 1) = 2 ^ 53"
  "nearest (2 ^ 53 + 3) = 2 ^ 53 + 4"
  "nearest (1 / 2 ^ 1074) = 1 / 2 ^ 1074"
  "nearest (1 / 2 ^ 1075) = 0"
  "nearest (- 1 / 2 ^ 1075) = 0"
  "nearest (3 / 2 ^ 1075) = 1 / 2 ^ 1073"
  "nearest (2 ^ 1024 - 2 ^ 971) = 2 ^ 1024 - 2 ^ 971"
  "nearest (2 ^ 1024 - 2 ^ 970) = 2 ^ 1024"
  "nearest (- (2 ^ 1024 - 2 ^ 970)) = - (2 ^ 1024)"
  "nearest (1 / 3) = 6004799503160661 / 2 ^ 54"
proof -
  show "nearest (2 ^ 53 + 1) = 2 ^ 53"
    by (subst nearest_eval [of 53]) (simp_all add: pow2_def round_even_def Let_def)
  show "nearest (2 ^ 53 + 3) = 2 ^ 53 + 4"
    by (subst nearest_eval [of 53]) (simp_all add: pow2_def round_even_def Let_def)
  show "nearest (1 / 2 ^ 1074) = 1 / 2 ^ 1074"
    by (subst nearest_eval [of "- 1074"]) (simp_all add: pow2_def round_even_def Let_def)
  show "nearest (1 / 2 ^ 1075) = 0"
    by (subst nearest_eval [of "- 1075"]) (simp_all add: pow2_def round_even_def Let_def)
  show "nearest (- 1 / 2 ^ 1075) = 0"
    by (subst nearest_eval [of "- 1075"]) (simp_all add: pow2_def round_even_def Let_def)
  show "nearest (3 / 2 ^ 1075) = 1 / 2 ^ 1073"
    by (subst nearest_eval [of "- 1074"]) (simp_all add: pow2_def round_even_def Let_def)
  show "nearest (2 ^ 1024 - 2 ^ 971) = 2 ^ 1024 - 2 ^ 971"
    by (subst nearest_eval [of 1023]) (simp_all add: pow2_def round_even_def Let_def)
  show "nearest (2 ^ 1024 - 2 ^ 970) = 2 ^ 1024"
    by (subst nearest_eval [of 1023]) (simp_all add: pow2_def round_even_def Let_def)
  show "nearest (- (2 ^ 1024 - 2 ^ 970)) = - (2 ^ 1024)"
    by (subst nearest_eval [of 1023]) (simp_all add: pow2_def round_even_def Let_def)
  show "nearest (1 / 3) = 6004799503160661 / 2 ^ 54"
    by (subst nearest_eval [of "- 2"]) (simp_all add: pow2_def round_even_def Let_def)
qed

lemma round64_landmarks:
  "round64 False (2 ^ 53 + 1) = Finite (2 ^ 53)"
  "round64 False (2 ^ 53 + 3) = Finite (2 ^ 53 + 4)"
  "round64 False (1 / 2 ^ 1074) = Finite (1 / 2 ^ 1074)"
  "round64 False (1 / 2 ^ 1075) = Finite 0"
  "round64 True (- 1 / 2 ^ 1075) = MZero"
  "round64 False (3 / 2 ^ 1075) = Finite (1 / 2 ^ 1073)"
  "round64 False (2 ^ 1024 - 2 ^ 971) = Finite (2 ^ 1024 - 2 ^ 971)"
  "round64 False (2 ^ 1024 - 2 ^ 970) = PInf"
  "round64 True (- (2 ^ 1024 - 2 ^ 970)) = MInf"
  "round64 False (1 / 3) = Finite (6004799503160661 / 2 ^ 54)"
  using nearest_landmarks
  by (simp_all add: round64_def signed_zero_def signed_inf_def)

lemma binary64_landmarks:
  "binary64 (2 ^ 53)" "\<not> binary64 (2 ^ 53 + 1)"
  "binary64 (1 / 2 ^ 1074)" "\<not> binary64 (1 / 2 ^ 1075)"
  "binary64 (2 ^ 1024 - 2 ^ 971)" "\<not> binary64 (2 ^ 1024 - 2 ^ 970)" "\<not> binary64 (2 ^ 1024)"
  "\<not> binary64 (1 / 3)" "\<not> valid (Finite (1 / 3))" "valid (Finite (1 / 2))"
proof -
  show "binary64 (2 ^ 53)"
    using binary64_dyadic [of 1 53] by (simp add: pow2_def)
  show "\<not> binary64 (2 ^ 53 + 1)"
    using nearest_landmarks(1) by (simp add: binary64_def)
  show "binary64 (1 / 2 ^ 1074)"
    using binary64_dyadic [of 1 "- 1074"] by (simp add: pow2_def)
  show "\<not> binary64 (1 / 2 ^ 1075)"
    using nearest_landmarks(4) by (simp add: binary64_def)
  show "binary64 (2 ^ 1024 - 2 ^ 971)"
    using nearest_landmarks(7) by (simp add: binary64_def)
  show "\<not> binary64 (2 ^ 1024 - 2 ^ 970)"
    using nearest_landmarks(8) by (simp add: binary64_def)
  show "\<not> binary64 (2 ^ 1024)"
    by (simp add: binary64_def)
  show n3: "\<not> binary64 (1 / 3)"
    using nearest_landmarks(10) by (simp add: binary64_def)
  show "\<not> valid (Finite (1 / 3))" using n3 by simp
  show "valid (Finite (1 / 2))"
    using binary64_dyadic [of 1 "- 1"] by (simp add: pow2_def)
qed

text \<open>
Infinities, zeros and NaN in the operations and comparisons.
\<close>

lemma special_values:
  "fsub PInf PInf = NaN" "fadd PInf MInf = NaN" "fadd PInf (Finite 1) = PInf"
  "fmul (Finite 0) PInf = NaN" "fmul MZero MInf = NaN" "fmul (Finite (- 1)) PInf = MInf"
  "fdiv (Finite 1) (Finite 0) = PInf" "fdiv (Finite (- 1)) (Finite 0) = MInf"
  "fdiv (Finite 1) MZero = MInf" "fdiv (Finite 0) (Finite 0) = NaN" "fdiv PInf MInf = NaN"
  "fdiv (Finite 1) MInf = MZero"
  "fsqrt MZero = MZero" "fsqrt (Finite (- 1)) = NaN" "fsqrt PInf = PInf"
  "fadd MZero (Finite 0) = Finite 0" "fadd MZero MZero = MZero" "fsub (Finite 1) (Finite 1) = Finite 0"
  "fneg (Finite 0) = MZero" "fsub MZero (Finite 0) = MZero" "fsub (Finite 0) (Finite 0) = Finite 0"
  "fmul MZero (Finite 0) = MZero" "fmul MZero MZero = Finite 0"
  "\<not> fge NaN (Finite 1)" "\<not> feq NaN NaN" "feq MZero (Finite 0)" "fge PInf (Finite 1)"
  "\<not> fge (Finite 1) PInf" "fge (Finite 1) (Finite 1)"
  by (simp_all add: fsub_def fadd_def fmul_def fdiv_def fge_def feq_def signed_zero_def signed_inf_def
      round64_def)

text \<open>
A product or quotient that underflows to zero keeps the sign of the exact result.
\<close>

lemma underflow_signs:
  "fmul (Finite (- (1 / 2 ^ 600))) (Finite (1 / 2 ^ 600)) = MZero"
  "fdiv (Finite (1 / 2 ^ 1074)) (Finite (- 4)) = MZero"
  "fdiv (Finite (- (1 / 2 ^ 1074))) (Finite (- 4)) = Finite 0"
proof -
  have a: "nearest (- (1 / 2 ^ 1200)) = 0"
    by (subst nearest_eval [of "- 1200"]) (simp_all add: pow2_def round_even_def Let_def)
  have "- (1 / 2 ^ 600) * (1 / 2 ^ 600) = (- (1 / 2 ^ 1200) :: real)" by simp
  then show "fmul (Finite (- (1 / 2 ^ 600))) (Finite (1 / 2 ^ 600)) = MZero"
    using a by (simp add: fmul_def round64_def signed_zero_def)
  have b: "nearest (- (1 / 2 ^ 1076)) = 0"
    by (subst nearest_eval [of "- 1076"]) (simp_all add: pow2_def round_even_def Let_def)
  have "1 / 2 ^ 1074 / - 4 = (- (1 / 2 ^ 1076) :: real)" by simp
  then show "fdiv (Finite (1 / 2 ^ 1074)) (Finite (- 4)) = MZero"
    using b by (simp add: fdiv_def round64_def signed_zero_def)
  have c: "nearest (1 / 2 ^ 1076) = 0"
    by (subst nearest_eval [of "- 1076"]) (simp_all add: pow2_def round_even_def Let_def)
  have "- (1 / 2 ^ 1074) / - 4 = (1 / 2 ^ 1076 :: real)" by simp
  then show "fdiv (Finite (- (1 / 2 ^ 1074))) (Finite (- 4)) = Finite 0"
    using c by (simp add: fdiv_def round64_def signed_zero_def)
qed

subsection \<open>compute_dist: the distance in binary64 arithmetic\<close>

lemma compute_dist_loop_upto:
  "0 \<le> i \<Longrightarrow> dim' \<le> int (length vec1) \<Longrightarrow> dim' \<le> int (length vec2) \<Longrightarrow>
   s = sq_dist_upto vec1 vec2 (nat i) \<Longrightarrow>
   compute_dist_loop vec1 vec2 dim' i s = Some (sq_dist_upto vec1 vec2 (nat (max i dim')))"
proof (induction vec1 vec2 dim' i s rule: compute_dist_loop.induct)
  case (1 vec1 vec2 dim' i s)
  show ?case
  proof (cases "i < dim'")
    case False
    then have "max i dim' = i" by simp
    with False "1.prems"(4) show ?thesis by (subst compute_dist_loop.simps) simp
  next
    case True
    have r1: "read_double vec1 i = Some (vec1 ! nat i)"
      using True "1.prems" by (simp add: read_double_def)
    have r2: "read_double vec2 i = Some (vec2 ! nat i)"
      using True "1.prems" by (simp add: read_double_def)
    let ?s' = "fadd s (fmul (fsub (vec1 ! nat i) (vec2 ! nat i)) (fsub (vec1 ! nat i) (vec2 ! nat i)))"
    have suc: "nat (i + 1) = Suc (nat i)" using "1.prems"(1) by simp
    have s': "?s' = sq_dist_upto vec1 vec2 (nat (i + 1))"
      unfolding suc "1.prems"(4) by simp
    have nn: "0 \<le> i + 1" using "1.prems"(1) by simp
    have ih: "compute_dist_loop vec1 vec2 dim' (i + 1) ?s' =
              Some (sq_dist_upto vec1 vec2 (nat (max (i + 1) dim')))"
      using "1.IH" [OF True r1 r2 nn "1.prems"(2) "1.prems"(3) s'] .
    have mx: "max (i + 1) dim' = max i dim'" using True by simp
    have step: "compute_dist_loop vec1 vec2 dim' i s = compute_dist_loop vec1 vec2 dim' (i + 1) ?s'"
      by (subst compute_dist_loop.simps) (simp add: True r1 r2)
    show ?thesis unfolding step ih mx ..
  qed
qed

lemma compute_dist_upto:
  assumes "dim' \<le> int (length vec1)" and "dim' \<le> int (length vec2)"
  shows "compute_dist vec1 vec2 dim' = Some (fsqrt (sq_dist_upto vec1 vec2 (nat dim')))"
proof -
  have "compute_dist_loop vec1 vec2 dim' 0 (Finite 0) =
        Some (sq_dist_upto vec1 vec2 (nat (max 0 dim')))"
    using assms by (intro compute_dist_loop_upto) simp_all
  moreover have "nat (max 0 dim') = nat dim'" by simp
  ultimately show ?thesis by (simp add: compute_dist_def)
qed

text \<open>
  The function returns exactly when both buffers hold \<open>dim\<close> entries; otherwise the
  loop reads outside a buffer.
\<close>

lemma read_double_None_iff: "read_double a i = None \<longleftrightarrow> i < 0 \<or> int (length a) \<le> i"
  by (auto simp: read_double_def)

lemma compute_dist_loop_outside:
  "0 \<le> i \<Longrightarrow> i \<le> int (length vec1) \<Longrightarrow> i \<le> int (length vec2) \<Longrightarrow>
   int (length vec1) < dim' \<or> int (length vec2) < dim' \<Longrightarrow>
   compute_dist_loop vec1 vec2 dim' i s = None"
proof (induction vec1 vec2 dim' i s rule: compute_dist_loop.induct)
  case (1 vec1 vec2 dim' i s)
  have lt: "i < dim'" using "1.prems" by linarith
  show ?case
  proof (cases "i < int (length vec1) \<and> i < int (length vec2)")
    case True
    then have r1: "read_double vec1 i = Some (vec1 ! nat i)"
      and r2: "read_double vec2 i = Some (vec2 ! nat i)"
      using "1.prems"(1) by (simp_all add: read_double_def)
    have "compute_dist_loop vec1 vec2 dim' (i + 1)
            (fadd s (fmul (fsub (vec1 ! nat i) (vec2 ! nat i)) (fsub (vec1 ! nat i) (vec2 ! nat i)))) = None"
      using True "1.prems" by (intro "1.IH" [OF lt r1 r2]) simp_all
    then show ?thesis
      by (subst compute_dist_loop.simps) (simp add: lt r1 r2)
  next
    case False
    then have "read_double vec1 i = None \<or> read_double vec2 i = None"
      by (auto simp: read_double_def)
    then show ?thesis
      by (subst compute_dist_loop.simps) (auto simp: lt split: option.splits)
  qed
qed

lemma compute_dist_defined_iff:
  "compute_dist vec1 vec2 dim' \<noteq> None \<longleftrightarrow>
     dim' \<le> int (length vec1) \<and> dim' \<le> int (length vec2)"
proof
  assume "dim' \<le> int (length vec1) \<and> dim' \<le> int (length vec2)"
  then show "compute_dist vec1 vec2 dim' \<noteq> None"
    using compute_dist_upto [of dim' vec1 vec2] by simp
next
  assume d: "compute_dist vec1 vec2 dim' \<noteq> None"
  show "dim' \<le> int (length vec1) \<and> dim' \<le> int (length vec2)"
  proof (rule ccontr)
    assume "\<not> (dim' \<le> int (length vec1) \<and> dim' \<le> int (length vec2))"
    then have "int (length vec1) < dim' \<or> int (length vec2) < dim'" by linarith
    then have "compute_dist_loop vec1 vec2 dim' 0 (Finite 0) = None"
      by (intro compute_dist_loop_outside) simp_all
    then show False using d by (simp add: compute_dist_def)
  qed
qed

lemma fsub_exact:
  assumes "is_finite a" "is_finite b" "binary64 (val a - val b)"
  shows "is_finite (fsub a b) \<and> val (fsub a b) = val a - val b"
proof -
  have nb: "\<not> is_inf (fneg b)" "fneg b \<noteq> NaN" "val (fneg b) = - val b"
    using assms(2) by (cases b; simp)+
  have na: "\<not> is_inf a" "a \<noteq> NaN" using assms(1) by (cases a; simp)+
  show ?thesis
    using nb na round64_binary64 [OF assms(3)]
    by (simp add: fsub_def fadd_def signed_zero_def)
qed

lemma fmul_self_exact:
  assumes "is_finite d" "binary64 (val d * val d)"
  shows "fmul d d = Finite (val d * val d)"
proof -
  have "\<not> is_inf d" "d \<noteq> NaN" using assms(1) by (cases d; simp)+
  then show ?thesis
    using round64_binary64 [OF assms(2), of False]
    by (simp add: fmul_def signed_zero_def)
qed

lemma fadd_exact_nonneg:
  assumes "0 \<le> s" "0 \<le> p" "binary64 (s + p)"
  shows "fadd (Finite s) (Finite p) = Finite (s + p)"
  using assms(1,2) round64_binary64 [OF assms(3)]
  by (auto simp: fadd_def signed_zero_def)

lemma fsqrt_exact:
  assumes "0 \<le> t" "binary64 (sqrt t)"
  shows "fsqrt (Finite t) = Finite (sqrt t)"
  using assms(1) round64_binary64 [OF assms(2), of False]
  by (auto simp: signed_zero_def)

lemma sq_dist_upto_exact:
  assumes "\<forall>i<n. is_finite (vec1 ! i) \<and> is_finite (vec2 ! i) \<and>
                  binary64 (val (vec1 ! i) - val (vec2 ! i)) \<and>
                  binary64 ((val (vec1 ! i) - val (vec2 ! i))\<^sup>2) \<and>
                  binary64 (\<Sum>j\<le>i. (val (vec1 ! j) - val (vec2 ! j))\<^sup>2)"
  shows "sq_dist_upto vec1 vec2 n = Finite (\<Sum>i<n. (val (vec1 ! i) - val (vec2 ! i))\<^sup>2)"
  using assms
proof (induction n)
  case 0
  show ?case by simp
next
  case (Suc n)
  let ?d = "val (vec1 ! n) - val (vec2 ! n)"
  have h: "is_finite (vec1 ! n)" "is_finite (vec2 ! n)" "binary64 ?d" "binary64 (?d\<^sup>2)"
    "binary64 (\<Sum>j\<le>n. (val (vec1 ! j) - val (vec2 ! j))\<^sup>2)"
    using Suc.prems by simp_all
  have ih: "sq_dist_upto vec1 vec2 n = Finite (\<Sum>i<n. (val (vec1 ! i) - val (vec2 ! i))\<^sup>2)"
    using Suc.prems by (intro Suc.IH) simp
  note d = fsub_exact [OF h(1,2,3)]
  have m: "fmul (fsub (vec1 ! n) (vec2 ! n)) (fsub (vec1 ! n) (vec2 ! n)) = Finite (?d\<^sup>2)"
    using fmul_self_exact [of "fsub (vec1 ! n) (vec2 ! n)"] d h(4)
    by (simp add: power2_eq_square)
  have split: "(\<Sum>j\<le>n. (val (vec1 ! j) - val (vec2 ! j))\<^sup>2) =
               (\<Sum>i<n. (val (vec1 ! i) - val (vec2 ! i))\<^sup>2) + ?d\<^sup>2"
    by (simp add: lessThan_Suc_atMost [symmetric])
  have "fadd (Finite (\<Sum>i<n. (val (vec1 ! i) - val (vec2 ! i))\<^sup>2)) (Finite (?d\<^sup>2)) =
        Finite ((\<Sum>i<n. (val (vec1 ! i) - val (vec2 ! i))\<^sup>2) + ?d\<^sup>2)"
    using h(5) unfolding split by (intro fadd_exact_nonneg) (simp_all add: sum_nonneg)
  then show ?case by (simp add: ih m)
qed

lemma compute_dist_exact:
  assumes "dim' \<le> int (length vec1)" and "dim' \<le> int (length vec2)"
    and "no_rounding vec1 vec2 (nat dim')"
  shows "compute_dist vec1 vec2 dim' =
           Some (Finite (euclidean (map val vec1) (map val vec2) (nat dim')))"
proof -
  have len: "nat dim' \<le> length vec1" "nat dim' \<le> length vec2" using assms(1,2) by simp_all
  have a: "\<forall>i<nat dim'. is_finite (vec1 ! i) \<and> is_finite (vec2 ! i) \<and>
                  binary64 (val (vec1 ! i) - val (vec2 ! i)) \<and>
                  binary64 ((val (vec1 ! i) - val (vec2 ! i))\<^sup>2) \<and>
                  binary64 (\<Sum>j\<le>i. (val (vec1 ! j) - val (vec2 ! j))\<^sup>2)"
    using assms(3) by (simp add: no_rounding_def list_all_iff)
  have b: "binary64 (sqrt (\<Sum>i<nat dim'. (val (vec1 ! i) - val (vec2 ! i))\<^sup>2))"
    using assms(3) by (simp add: no_rounding_def)
  have "fsqrt (sq_dist_upto vec1 vec2 (nat dim')) =
        Finite (sqrt (\<Sum>i<nat dim'. (val (vec1 ! i) - val (vec2 ! i))\<^sup>2))"
    unfolding sq_dist_upto_exact [OF a] using b by (intro fsqrt_exact) (simp_all add: sum_nonneg)
  moreover have "euclidean (map val vec1) (map val vec2) (nat dim') =
        sqrt (\<Sum>i<nat dim'. (val (vec1 ! i) - val (vec2 ! i))\<^sup>2)"
    unfolding euclidean_def using len by (intro arg_cong [where f = sqrt] sum.cong) simp_all
  ultimately show ?thesis
    using compute_dist_upto [OF assms(1,2)] by simp
qed

text \<open>
  Claim C7, as it holds of the code. For vectors \<open>vec1\<close>, \<open>vec2\<close> holding at least
  \<open>dim\<close> entries (in particular: of length \<open>dim \<ge> 0\<close>), \<open>compute_dist vec1 vec2 dim\<close>
  returns the square root of the sum over \<open>i < dim\<close> of \<open>(vec1[i] - vec2[i])\<^sup>2\<close> as
  binary64 arithmetic evaluates it in index order, every subtraction, multiplication,
  addition and the square root rounded. When no operation of the run rounds, overflows
  or underflows, this is the Euclidean distance of the two vectors.
\<close>

theorem compute_dist_binary64:
  assumes "dim' \<le> int (length vec1)" and "dim' \<le> int (length vec2)"
  shows "compute_dist vec1 vec2 dim' = Some (fsqrt (sq_dist_upto vec1 vec2 (nat dim'))) \<and>
         (no_rounding vec1 vec2 (nat dim') \<longrightarrow>
            compute_dist vec1 vec2 dim' =
              Some (Finite (euclidean (map val vec1) (map val vec2) (nat dim'))))"
  using compute_dist_upto [OF assms] compute_dist_exact [OF assms] by blast

lemma sqrt_25: "sqrt 25 = 5"
  by (rule real_sqrt_unique) simp_all

lemma ex_no_rounding: "no_rounding [Finite 0, Finite 0] [Finite 3, Finite 4] 2"
proof -
  have b: "binary64 (- 3)" "binary64 (- 4)" "binary64 9" "binary64 16" "binary64 25" "binary64 5"
    using binary64_of_int [of "- 3"] binary64_of_int [of "- 4"] binary64_of_int [of 9]
      binary64_of_int [of 16] binary64_of_int [of 25] binary64_of_int [of 5]
    by simp_all
  have u: "[0..<2] = [0, Suc 0]" by (simp add: numeral_2_eq_2)
  show ?thesis
    unfolding no_rounding_def u using b
    by (simp add: numeral_2_eq_2 lessThan_Suc atMost_Suc sqrt_25)
qed

text \<open>
  The vectors \<open>(0, 0)\<close> and \<open>(3, 4)\<close>: no operation rounds, and the distance is 5.
\<close>

theorem compute_dist_binary64_witness:
  "(2::int) \<le> int (length [Finite 0, Finite 0]) \<and> (2::int) \<le> int (length [Finite 3, Finite 4]) \<and>
   no_rounding [Finite 0, Finite 0] [Finite 3, Finite 4] 2 \<and>
   compute_dist [Finite 0, Finite 0] [Finite 3, Finite 4] 2 = Some (Finite 5)"
proof -
  have h1: "(2::int) \<le> int (length [Finite 0, Finite 0])" by simp
  have h2: "(2::int) \<le> int (length [Finite 3, Finite 4])" by simp
  have e: "euclidean (map val [Finite 0, Finite 0]) (map val [Finite 3, Finite 4]) (nat 2) = 5"
    by (simp add: euclidean_def numeral_2_eq_2 lessThan_Suc sqrt_25)
  from compute_dist_binary64 [OF h1 h2]
  have "no_rounding [Finite 0, Finite 0] [Finite 3, Finite 4] (nat 2) \<longrightarrow>
        compute_dist [Finite 0, Finite 0] [Finite 3, Finite 4] 2 =
          Some (Finite (euclidean (map val [Finite 0, Finite 0]) (map val [Finite 3, Finite 4]) (nat 2)))"
    by (rule conjunct2)
  then have "compute_dist [Finite 0, Finite 0] [Finite 3, Finite 4] 2 = Some (Finite 5)"
    using ex_no_rounding unfolding e by simp
  then show ?thesis using ex_no_rounding by simp
qed

lemma b64_ex:
  "binary64 1" "binary64 (1 / 2 ^ 30)" "binary64 (1 / 2 ^ 60)" "binary64 (1 / 2 ^ 540)" "binary64 (2 ^ 600)"
  using binary64_dyadic [of 1 0] binary64_dyadic [of 1 "-30"] binary64_dyadic [of 1 "-60"]
    binary64_dyadic [of 1 "-540"] binary64_dyadic [of 1 "600"]
  by (simp_all add: pow2_def)

lemma round_1_60: "round64 False (1 + 1 / 2 ^ 60) = Finite 1"
proof -
  have "nearest (1 + 1 / 2 ^ 60) = 1"
    by (subst nearest_eval [of 0]) (simp_all add: pow2_def round_even_def Let_def)
  then show ?thesis by (simp add: round64_def)
qed

lemma round_underflow: "round64 False (1 / 2 ^ 1080) = Finite 0"
proof -
  have "nearest (1 / 2 ^ 1080) = 0"
    by (subst nearest_eval [of "- 1080"]) (simp_all add: pow2_def round_even_def Let_def)
  then show ?thesis by (simp add: round64_def signed_zero_def)
qed

lemma round_overflow: "round64 False (2 ^ 1200) = PInf"
proof -
  have "nearest (2 ^ 1200) = 2 ^ 1200"
    by (subst nearest_eval [of "1200"]) (simp_all add: pow2_def round_even_def Let_def)
  then show ?thesis by (simp add: round64_def signed_inf_def)
qed

lemma ex_round:
  "compute_dist [Finite 1, Finite (1 / 2 ^ 30)] [Finite 0, Finite 0] 2 = Some (Finite 1)"
proof -
  have "compute_dist [Finite 1, Finite (1 / 2 ^ 30)] [Finite 0, Finite 0] 2 =
        Some (fsqrt (sq_dist_upto [Finite 1, Finite (1 / 2 ^ 30)] [Finite 0, Finite 0] (nat 2)))"
    by (rule compute_dist_upto) simp_all
  then show ?thesis
    using round64_binary64 [OF b64_ex(1)] round64_binary64 [OF b64_ex(2)] round64_binary64 [OF b64_ex(3)]
      round_1_60
    by (simp add: numeral_2_eq_2 fsub_def fadd_def fmul_def signed_zero_def)
qed

lemma ex_under:
  "compute_dist [Finite (1 / 2 ^ 540)] [Finite 0] 1 = Some (Finite 0)"
proof -
  have "compute_dist [Finite (1 / 2 ^ 540)] [Finite 0] 1 =
        Some (fsqrt (sq_dist_upto [Finite (1 / 2 ^ 540)] [Finite 0] (nat 1)))"
    by (rule compute_dist_upto) simp_all
  moreover have "(1 / 2 ^ 540) * (1 / 2 ^ 540) = (1 / 2 ^ 1080 :: real)" by simp
  ultimately show ?thesis
    using round64_binary64 [OF b64_ex(4)] round_underflow round64_binary64 [of 0 False]
    by (simp add: fsub_def fadd_def fmul_def signed_zero_def binary64_def)
qed

lemma ex_over:
  "compute_dist [Finite (2 ^ 600)] [Finite 0] 1 = Some PInf"
proof -
  have "compute_dist [Finite (2 ^ 600)] [Finite 0] 1 =
        Some (fsqrt (sq_dist_upto [Finite (2 ^ 600)] [Finite 0] (nat 1)))"
    by (rule compute_dist_upto) simp_all
  moreover have "2 ^ 600 * 2 ^ 600 = (2 ^ 1200 :: real)" by simp
  ultimately show ?thesis
    using round64_binary64 [OF b64_ex(5)] round_overflow
    by (simp add: fsub_def fadd_def fmul_def signed_zero_def)
qed

lemma euclidean_single: "euclidean [x] [0] 1 = \<bar>x\<bar>"
  by (simp add: euclidean_def)

text \<open>
  Claim C7 as the specification states it, that \<open>compute_dist\<close> returns the Euclidean
  distance of every pair of vectors, fails where an operation rounds, underflows or
  overflows. For \<open>(1, 2^-30)\<close> and \<open>(0, 0)\<close> the sum \<open>1 + 2^-60\<close> rounds to 1 and
  the function returns 1, which is not the distance; for \<open>(2^-540)\<close> and \<open>(0)\<close> the
  square underflows and the function returns 0; for \<open>(2^600)\<close> and \<open>(0)\<close> the square
  overflows and the function returns \<open>+inf\<close>.
\<close>

theorem compute_dist_not_exact:
  "compute_dist [Finite 1, Finite (1 / 2 ^ 30)] [Finite 0, Finite 0] 2 = Some (Finite 1) \<and>
   euclidean (map val [Finite 1, Finite (1 / 2 ^ 30)]) (map val [Finite 0, Finite 0]) 2 =
     sqrt (1 + 1 / 2 ^ 60) \<and>
   sqrt (1 + 1 / 2 ^ 60) \<noteq> 1 \<and>
   compute_dist [Finite (1 / 2 ^ 540)] [Finite 0] 1 = Some (Finite 0) \<and>
   euclidean (map val [Finite (1 / 2 ^ 540)]) (map val [Finite 0]) 1 = 1 / 2 ^ 540 \<and>
   compute_dist [Finite (2 ^ 600)] [Finite 0] 1 = Some PInf \<and>
   euclidean (map val [Finite (2 ^ 600)]) (map val [Finite 0]) 1 = 2 ^ 600"
proof -
  have a: "euclidean (map val [Finite 1, Finite (1 / 2 ^ 30)]) (map val [Finite 0, Finite 0]) 2 =
           sqrt (1 + 1 / 2 ^ 60)"
    by (simp add: euclidean_def numeral_2_eq_2 lessThan_Suc power_divide)
  have a': "sqrt (1 + 1 / 2 ^ 60) \<noteq> 1"
    by (simp add: real_sqrt_eq_1_iff)
  have b: "euclidean (map val [Finite (1 / 2 ^ 540)]) (map val [Finite 0]) 1 = 1 / 2 ^ 540"
    using euclidean_single [of "1 / 2 ^ 540"] by simp
  have c: "euclidean (map val [Finite (2 ^ 600)]) (map val [Finite 0]) 1 = 2 ^ 600"
    using euclidean_single [of "2 ^ 600"] by simp
  show ?thesis using a a' b c ex_round ex_under ex_over by blast
qed

subsection \<open>compute_dist: the rounding error\<close>

text \<open>
  An operation whose exact result is in range returns a number within one unit roundoff
  of it, relatively.
\<close>

lemma u64_bounds: "0 < u64" "u64 < 1"
  by (simp_all add: u64_def)

lemma nearest_relative:
  assumes "1 / 2 ^ 1022 \<le> \<bar>x\<bar>"
  shows "\<bar>nearest x - x\<bar> \<le> u64 * \<bar>x\<bar>"
proof -
  let ?e = "\<lfloor>log 2 \<bar>x\<bar>\<rfloor>"
  have pos: "0 < \<bar>x\<bar>" using assms by (smt (verit) divide_pos_pos zero_less_power zero_less_numeral zero_less_one)
  have "pow2 (- 1022) \<le> \<bar>x\<bar>" using assms by (simp add: pow2_def)
  then have "2 powr of_int (- 1022) \<le> \<bar>x\<bar>" by (simp only: pow2_powr)
  then have "of_int (- 1022) \<le> log 2 \<bar>x\<bar>"
    by (rule iffD2 [OF le_log_iff [OF _ pos], rotated]) simp
  then have e: "- 1022 \<le> ?e" by (simp add: le_floor_iff)
  then have u: "ulp_exponent x = ?e - 52" unfolding ulp_exponent_def by linarith
  have lo: "pow2 ?e \<le> \<bar>x\<bar>"
  proof -
    have "of_int ?e \<le> log 2 \<bar>x\<bar>" by simp
    then have "2 powr of_int ?e \<le> \<bar>x\<bar>"
      by (rule iffD1 [OF le_log_iff [OF _ pos], rotated]) simp
    then show ?thesis by (simp add: pow2_powr)
  qed
  have "\<bar>nearest x - x\<bar> \<le> pow2 (?e - 52) / 2" using nearest_error [of x] unfolding u .
  also have "\<dots> = u64 * pow2 ?e"
  proof -
    have "pow2 (?e - 52) = pow2 ?e / pow2 52" by (rule pow2_diff)
    moreover have "pow2 52 = 2 ^ 52" by (simp add: pow2_def)
    ultimately show ?thesis by (simp add: u64_def)
  qed
  also have "\<dots> \<le> u64 * \<bar>x\<bar>" using lo u64_bounds(1) by simp
  finally show ?thesis .
qed

lemma round64_in_range:
  assumes "in_range x"
  shows "is_finite (round64 neg x)" and "\<bar>val (round64 neg x) - x\<bar> \<le> u64 * \<bar>x\<bar>"
proof -
  show "is_finite (round64 neg x)"
    using assms by (auto simp: in_range_def round64_def Let_def signed_zero_def)
  show "\<bar>val (round64 neg x) - x\<bar> \<le> u64 * \<bar>x\<bar>"
  proof (cases "x = 0")
    case True
    then show ?thesis by (simp add: round64_def signed_zero_def)
  next
    case False
    then have r: "1 / 2 ^ 1022 \<le> \<bar>x\<bar>" "\<bar>nearest x\<bar> < 2 ^ 1024"
      using assms by (simp_all add: in_range_def)
    have "val (round64 neg x) = nearest x"
      using r(2) by (simp add: round64_def Let_def signed_zero_def)
    then show ?thesis using nearest_relative [OF r(1)] by simp
  qed
qed

lemma round64_nonneg_finite:
  assumes "in_range x" "0 \<le> x"
  shows "\<exists>y. round64 False x = Finite y \<and> (1 - u64) * x \<le> y \<and> y \<le> (1 + u64) * x"
proof -
  note r = round64_in_range [OF assms(1), of False]
  from round64_nonneg [OF assms(2)] r(1) obtain y where y: "round64 False x = Finite y" "0 \<le> y"
    by auto
  have "\<bar>y - x\<bar> \<le> u64 * x" using r(2) y(1) assms(2) by simp
  then have "(1 - u64) * x \<le> y \<and> y \<le> (1 + u64) * x"
    by (simp add: abs_le_iff algebra_simps)
  with y(1) show ?thesis by blast
qed

lemma fsub_in_range:
  assumes "is_finite a" "is_finite b" "in_range (val a - val b)"
  shows "is_finite (fsub a b)"
    and "\<bar>val (fsub a b) - (val a - val b)\<bar> \<le> u64 * \<bar>val a - val b\<bar>"
proof -
  have nb: "\<not> is_inf (fneg b)" "fneg b \<noteq> NaN" "val (fneg b) = - val b"
    using assms(2) by (cases b; simp)+
  have na: "\<not> is_inf a" "a \<noteq> NaN" using assms(1) by (cases a; simp)+
  show "is_finite (fsub a b)"
    using nb na round64_in_range(1) [OF assms(3)]
    by (simp add: fsub_def fadd_def signed_zero_def)
  show "\<bar>val (fsub a b) - (val a - val b)\<bar> \<le> u64 * \<bar>val a - val b\<bar>"
    using nb na round64_in_range(2) [OF assms(3)]
    by (simp add: fsub_def fadd_def signed_zero_def)
qed

lemma square_bounds:
  assumes "\<bar>y - x\<bar> \<le> u64 * \<bar>x\<bar>"
  shows "(1 - u64)\<^sup>2 * x\<^sup>2 \<le> y\<^sup>2" and "y\<^sup>2 \<le> (1 + u64)\<^sup>2 * x\<^sup>2"
proof -
  have lo: "(1 - u64) * \<bar>x\<bar> \<le> \<bar>y\<bar>" and hi: "\<bar>y\<bar> \<le> (1 + u64) * \<bar>x\<bar>"
    using assms by (simp_all add: algebra_simps)
  have nn: "0 \<le> (1 - u64) * \<bar>x\<bar>" using u64_bounds by simp
  have "((1 - u64) * \<bar>x\<bar>)\<^sup>2 \<le> \<bar>y\<bar>\<^sup>2" using lo nn by (rule power_mono)
  then show "(1 - u64)\<^sup>2 * x\<^sup>2 \<le> y\<^sup>2" by (simp add: power_mult_distrib)
  have "\<bar>y\<bar>\<^sup>2 \<le> ((1 + u64) * \<bar>x\<bar>)\<^sup>2" using hi by (rule power_mono) simp
  then show "y\<^sup>2 \<le> (1 + u64)\<^sup>2 * x\<^sup>2" by (simp add: power_mult_distrib)
qed

lemma fmul_self_in_range:
  assumes "is_finite d" "in_range (val d * val d)"
  shows "\<exists>p. fmul d d = Finite p \<and> (1 - u64) * (val d)\<^sup>2 \<le> p \<and> p \<le> (1 + u64) * (val d)\<^sup>2"
proof -
  have "\<not> is_inf d" "d \<noteq> NaN" using assms(1) by (cases d; simp)+
  then have "fmul d d = round64 False (val d * val d)" by (simp add: fmul_def)
  then show ?thesis
    using round64_nonneg_finite [OF assms(2)] by (simp add: power2_eq_square)
qed

lemma fadd_in_range:
  assumes "0 \<le> s" "0 \<le> p" "in_range (s + p)"
  shows "\<exists>t. fadd (Finite s) (Finite p) = Finite t \<and> (1 - u64) * (s + p) \<le> t \<and> t \<le> (1 + u64) * (s + p)"
proof (cases "s + p = 0")
  case True
  then show ?thesis using assms(1,2) by (simp add: fadd_def signed_zero_def)
next
  case False
  then have "fadd (Finite s) (Finite p) = round64 False (s + p)"
    using assms(1,2) by (simp add: fadd_def)
  then show ?thesis
    using round64_nonneg_finite [OF assms(3)] assms(1,2) by simp
qed

lemma fsqrt_in_range:
  assumes "0 \<le> s" "in_range (sqrt s)"
  shows "\<exists>r. fsqrt (Finite s) = Finite r \<and> (1 - u64) * sqrt s \<le> r \<and> r \<le> (1 + u64) * sqrt s"
  using round64_nonneg_finite [OF assms(2)] assms(1) by simp

lemma sq_dist_upto_bounds:
  assumes "\<forall>i<n. is_finite (vec1 ! i) \<and> is_finite (vec2 ! i) \<and>
                  in_range (val (vec1 ! i) - val (vec2 ! i)) \<and>
                  in_range (val (fsub (vec1 ! i) (vec2 ! i)) * val (fsub (vec1 ! i) (vec2 ! i))) \<and>
                  in_range (val (sq_dist_upto vec1 vec2 i) +
                            val (fmul (fsub (vec1 ! i) (vec2 ! i)) (fsub (vec1 ! i) (vec2 ! i))))"
  shows "\<exists>s. sq_dist_upto vec1 vec2 n = Finite s \<and>
             (1 - u64) ^ (n + 3) * (\<Sum>i<n. (val (vec1 ! i) - val (vec2 ! i))\<^sup>2) \<le> s \<and>
             s \<le> (1 + u64) ^ (n + 3) * (\<Sum>i<n. (val (vec1 ! i) - val (vec2 ! i))\<^sup>2)"
  using assms
proof (induction n)
  case 0
  show ?case by simp
next
  case (Suc n)
  let ?S = "\<Sum>i<n. (val (vec1 ! i) - val (vec2 ! i))\<^sup>2"
  let ?d = "val (vec1 ! n) - val (vec2 ! n)"
  let ?D = "fsub (vec1 ! n) (vec2 ! n)"
  have u: "0 < u64" "u64 < 1" by (rule u64_bounds)+
  have h: "is_finite (vec1 ! n)" "is_finite (vec2 ! n)" "in_range ?d" "in_range (val ?D * val ?D)"
    "in_range (val (sq_dist_upto vec1 vec2 n) + val (fmul ?D ?D))"
    using Suc.prems by simp_all
  obtain s where s: "sq_dist_upto vec1 vec2 n = Finite s"
    "(1 - u64) ^ (n + 3) * ?S \<le> s" "s \<le> (1 + u64) ^ (n + 3) * ?S"
    using Suc.IH Suc.prems by auto
  have S0: "0 \<le> ?S" by (simp add: sum_nonneg)
  have s0: "0 \<le> s"
  proof -
    have "0 \<le> (1 - u64) ^ (n + 3) * ?S" using u S0 by simp
    then show ?thesis using s(2) by linarith
  qed
  note D = fsub_in_range [OF h(1,2,3)]
  note sq = square_bounds [OF D(2)]
  obtain p where p: "fmul ?D ?D = Finite p" "(1 - u64) * (val ?D)\<^sup>2 \<le> p" "p \<le> (1 + u64) * (val ?D)\<^sup>2"
    using fmul_self_in_range [OF D(1) h(4)] by blast
  have p_lo: "(1 - u64) ^ 3 * ?d\<^sup>2 \<le> p"
  proof -
    have "(1 - u64) ^ 3 * ?d\<^sup>2 = (1 - u64) * ((1 - u64)\<^sup>2 * ?d\<^sup>2)"
      by (simp add: power3_eq_cube power2_eq_square)
    also have "\<dots> \<le> (1 - u64) * (val ?D)\<^sup>2"
      using sq(1) u by (intro mult_left_mono) simp_all
    also have "\<dots> \<le> p" by (rule p(2))
    finally show ?thesis .
  qed
  have p_hi: "p \<le> (1 + u64) ^ 3 * ?d\<^sup>2"
  proof -
    have "p \<le> (1 + u64) * (val ?D)\<^sup>2" by (rule p(3))
    also have "\<dots> \<le> (1 + u64) * ((1 + u64)\<^sup>2 * ?d\<^sup>2)"
      using sq(2) u by (intro mult_left_mono) simp_all
    also have "\<dots> = (1 + u64) ^ 3 * ?d\<^sup>2"
      by (simp add: power3_eq_cube power2_eq_square)
    finally show ?thesis .
  qed
  have p0: "0 \<le> p"
  proof -
    have "0 \<le> (1 - u64) ^ 3 * ?d\<^sup>2" using u by simp
    then show ?thesis using p_lo by linarith
  qed
  have r: "in_range (s + p)" using h(5) s(1) p(1) by simp
  obtain t where t: "fadd (Finite s) (Finite p) = Finite t"
    "(1 - u64) * (s + p) \<le> t" "t \<le> (1 + u64) * (s + p)"
    using fadd_in_range [OF s0 p0 r] by blast
  have lo: "(1 - u64) ^ (n + 3) * (?S + ?d\<^sup>2) \<le> s + p"
  proof -
    have "(1 - u64) ^ (n + 3) \<le> (1 - u64) ^ 3"
      using u by (intro power_decreasing) simp_all
    then have "(1 - u64) ^ (n + 3) * ?d\<^sup>2 \<le> (1 - u64) ^ 3 * ?d\<^sup>2"
      by (intro mult_right_mono) simp_all
    then have "(1 - u64) ^ (n + 3) * ?d\<^sup>2 \<le> p" using p_lo by linarith
    moreover have "(1 - u64) ^ (n + 3) * (?S + ?d\<^sup>2) =
        (1 - u64) ^ (n + 3) * ?S + (1 - u64) ^ (n + 3) * ?d\<^sup>2"
      by (rule distrib_left)
    ultimately show ?thesis using s(2) by linarith
  qed
  have hi: "s + p \<le> (1 + u64) ^ (n + 3) * (?S + ?d\<^sup>2)"
  proof -
    have "(1 + u64) ^ 3 \<le> (1 + u64) ^ (n + 3)"
      using u by (intro power_increasing) simp_all
    then have "(1 + u64) ^ 3 * ?d\<^sup>2 \<le> (1 + u64) ^ (n + 3) * ?d\<^sup>2"
      by (intro mult_right_mono) simp_all
    then have "p \<le> (1 + u64) ^ (n + 3) * ?d\<^sup>2" using p_hi by linarith
    moreover have "(1 + u64) ^ (n + 3) * (?S + ?d\<^sup>2) =
        (1 + u64) ^ (n + 3) * ?S + (1 + u64) ^ (n + 3) * ?d\<^sup>2"
      by (rule distrib_left)
    ultimately show ?thesis using s(3) by linarith
  qed
  have pw: "x ^ (Suc n + 3) * X = x * (x ^ (n + 3) * X)" for x X :: real
  proof -
    have "Suc n + 3 = Suc (n + 3)" by simp
    then show ?thesis by (simp only: power_Suc mult.assoc)
  qed
  have t_lo: "(1 - u64) ^ (Suc n + 3) * (?S + ?d\<^sup>2) \<le> t"
  proof -
    have "(1 - u64) ^ (Suc n + 3) * (?S + ?d\<^sup>2) = (1 - u64) * ((1 - u64) ^ (n + 3) * (?S + ?d\<^sup>2))"
      by (rule pw)
    also have "\<dots> \<le> (1 - u64) * (s + p)"
      using lo u by (intro mult_left_mono) simp_all
    also have "\<dots> \<le> t" by (rule t(2))
    finally show ?thesis .
  qed
  have t_hi: "t \<le> (1 + u64) ^ (Suc n + 3) * (?S + ?d\<^sup>2)"
  proof -
    have "t \<le> (1 + u64) * (s + p)" by (rule t(3))
    also have "\<dots> \<le> (1 + u64) * ((1 + u64) ^ (n + 3) * (?S + ?d\<^sup>2))"
      using hi u by (intro mult_left_mono) simp_all
    also have "\<dots> = (1 + u64) ^ (Suc n + 3) * (?S + ?d\<^sup>2)"
      by (rule pw [symmetric])
    finally show ?thesis .
  qed
  have "sq_dist_upto vec1 vec2 (Suc n) = Finite t" by (simp add: s(1) p(1) t(1))
  with t_lo t_hi show ?case by simp
qed

text \<open>
  How far the returned value is from the Euclidean distance when operations round but
  none overflows or underflows: \<open>compute_dist\<close> returns a number \<open>r \<ge> 0\<close> whose
  square is the squared Euclidean distance up to a factor between
  \<open>(1 - 2^-53)^(dim + 5)\<close> and \<open>(1 + 2^-53)^(dim + 5)\<close>.
\<close>

lemma compute_dist_relative_error:
  assumes "dim' \<le> int (length vec1)" and "dim' \<le> int (length vec2)"
    and "no_over_underflow vec1 vec2 (nat dim')"
  shows "\<exists>r. compute_dist vec1 vec2 dim' = Some (Finite r) \<and> 0 \<le> r \<and>
           (1 - u64) ^ (nat dim' + 5) * (euclidean (map val vec1) (map val vec2) (nat dim'))\<^sup>2 \<le> r\<^sup>2 \<and>
           r\<^sup>2 \<le> (1 + u64) ^ (nat dim' + 5) * (euclidean (map val vec1) (map val vec2) (nat dim'))\<^sup>2"
proof -
  let ?n = "nat dim'"
  let ?S = "\<Sum>i<?n. (val (vec1 ! i) - val (vec2 ! i))\<^sup>2"
  have u: "0 < u64" "u64 < 1" by (rule u64_bounds)+
  have len: "?n \<le> length vec1" "?n \<le> length vec2" using assms(1,2) by simp_all
  have a: "\<forall>i<?n. is_finite (vec1 ! i) \<and> is_finite (vec2 ! i) \<and>
                  in_range (val (vec1 ! i) - val (vec2 ! i)) \<and>
                  in_range (val (fsub (vec1 ! i) (vec2 ! i)) * val (fsub (vec1 ! i) (vec2 ! i))) \<and>
                  in_range (val (sq_dist_upto vec1 vec2 i) +
                            val (fmul (fsub (vec1 ! i) (vec2 ! i)) (fsub (vec1 ! i) (vec2 ! i))))"
    using assms(3) by (simp add: no_over_underflow_def list_all_iff)
  obtain s where s: "sq_dist_upto vec1 vec2 ?n = Finite s"
    "(1 - u64) ^ (?n + 3) * ?S \<le> s" "s \<le> (1 + u64) ^ (?n + 3) * ?S"
    using sq_dist_upto_bounds [OF a] by blast
  have S0: "0 \<le> ?S" by (simp add: sum_nonneg)
  have s0: "0 \<le> s"
  proof -
    have "0 \<le> (1 - u64) ^ (?n + 3) * ?S" using u S0 by simp
    then show ?thesis using s(2) by linarith
  qed
  have b: "in_range (sqrt s)" using assms(3) s(1) by (simp add: no_over_underflow_def)
  obtain r where r: "fsqrt (Finite s) = Finite r" "(1 - u64) * sqrt s \<le> r" "r \<le> (1 + u64) * sqrt s"
    using fsqrt_in_range [OF s0 b] by blast
  have r0: "0 \<le> r"
  proof -
    have "0 \<le> (1 - u64) * sqrt s" using u s0 by simp
    then show ?thesis using r(2) by linarith
  qed
  have "((1 - u64) * sqrt s)\<^sup>2 \<le> r\<^sup>2" using r(2) u s0 by (intro power_mono) simp_all
  then have r_lo: "(1 - u64)\<^sup>2 * s \<le> r\<^sup>2" using s0 by (simp add: power_mult_distrib)
  have "r\<^sup>2 \<le> ((1 + u64) * sqrt s)\<^sup>2" using r(3) r0 by (intro power_mono) simp_all
  then have r_hi: "r\<^sup>2 \<le> (1 + u64)\<^sup>2 * s" using s0 by (simp add: power_mult_distrib)
  have pw: "x ^ (?n + 5) * ?S = x\<^sup>2 * (x ^ (?n + 3) * ?S)" for x :: real
  proof -
    have "?n + 5 = 2 + (?n + 3)" by simp
    then have "x ^ (?n + 5) = x\<^sup>2 * x ^ (?n + 3)" by (simp only: power_add)
    then show ?thesis by simp
  qed
  have lo: "(1 - u64) ^ (?n + 5) * ?S \<le> r\<^sup>2"
  proof -
    have "(1 - u64)\<^sup>2 * ((1 - u64) ^ (?n + 3) * ?S) \<le> (1 - u64)\<^sup>2 * s"
      using s(2) by (intro mult_left_mono) simp_all
    also have "\<dots> \<le> r\<^sup>2" by (rule r_lo)
    finally show ?thesis unfolding pw .
  qed
  have hi: "r\<^sup>2 \<le> (1 + u64) ^ (?n + 5) * ?S"
  proof -
    have "r\<^sup>2 \<le> (1 + u64)\<^sup>2 * s" by (rule r_hi)
    also have "\<dots> \<le> (1 + u64)\<^sup>2 * ((1 + u64) ^ (?n + 3) * ?S)"
      using s(3) by (intro mult_left_mono) simp_all
    finally show ?thesis unfolding pw .
  qed
  have e: "(euclidean (map val vec1) (map val vec2) ?n)\<^sup>2 = ?S"
  proof -
    have "euclidean (map val vec1) (map val vec2) ?n = sqrt ?S"
      unfolding euclidean_def using len by (intro arg_cong [where f = sqrt] sum.cong) simp_all
    then show ?thesis using S0 by simp
  qed
  have "compute_dist vec1 vec2 dim' = Some (Finite r)"
    using compute_dist_upto [OF assms(1,2)] s(1) r(1) by simp
  with r0 lo hi show ?thesis unfolding e by blast
qed

text \<open>
  The vectors \<open>(1, 2^-30)\<close> and \<open>(0, 0)\<close>, where the sum rounds: the returned 1 is
  within the bound of the distance \<open>sqrt(1 + 2^-60)\<close>.
\<close>

lemma in_range_binary64: "binary64 x \<Longrightarrow> x = 0 \<or> 1 / 2 ^ 1022 \<le> \<bar>x\<bar> \<Longrightarrow> in_range x"
  by (auto simp: in_range_def binary64_def)

lemma nearest_1_60: "nearest (1 + 1 / 2 ^ 60) = 1"
  by (subst nearest_eval [of 0]) (simp_all add: pow2_def round_even_def Let_def)

lemma ex_upto:
  "fsub (Finite 1) (Finite 0) = Finite 1"
  "fsub (Finite (1 / 2 ^ 30)) (Finite 0) = Finite (1 / 2 ^ 30)"
  "fmul (Finite 1) (Finite 1) = Finite 1"
  "fmul (Finite (1 / 2 ^ 30)) (Finite (1 / 2 ^ 30)) = Finite (1 / 2 ^ 60)"
  "fadd (Finite 0) (Finite 1) = Finite 1"
  "fadd (Finite 1) (Finite (1 / 2 ^ 60)) = Finite 1"
  using round64_binary64 [OF b64_ex(1)] round64_binary64 [OF b64_ex(2)] round64_binary64 [OF b64_ex(3)]
    round_1_60
  by (simp_all add: fsub_def fadd_def fmul_def signed_zero_def)

lemma ex_no_over_underflow:
  "no_over_underflow [Finite 1, Finite (1 / 2 ^ 30)] [Finite 0, Finite 0] 2"
proof -
  have r: "in_range 1" "in_range (1 / 2 ^ 30)" "in_range (1 / 2 ^ 60)"
    using in_range_binary64 [OF b64_ex(1)] in_range_binary64 [OF b64_ex(2)]
      in_range_binary64 [OF b64_ex(3)] by simp_all
  have r': "in_range (1 + 1 / 2 ^ 60)"
    unfolding in_range_def nearest_1_60 by simp
  have u: "[0..<2] = [0, Suc 0]" by (simp add: numeral_2_eq_2)
  have s2: "sq_dist_upto [Finite 1, Finite (1 / 2 ^ 30)] [Finite 0, Finite 0] 2 = Finite 1"
    using ex_upto by (simp add: numeral_2_eq_2)
  show ?thesis
    unfolding no_over_underflow_def u s2 using r r' ex_upto
    by simp
qed

lemma compute_dist_relative_error_example:
  "compute_dist [Finite 1, Finite (1 / 2 ^ 30)] [Finite 0, Finite 0] 2 = Some (Finite 1) \<and>
   (1 - u64) ^ 7 * (1 + 1 / 2 ^ 60) \<le> 1 \<and> 1 \<le> (1 + u64) ^ 7 * (1 + 1 / 2 ^ 60)"
proof -
  have h1: "(2::int) \<le> int (length [Finite 1, Finite (1 / 2 ^ 30)])" by simp
  have h2: "(2::int) \<le> int (length [Finite 0, Finite 0])" by simp
  have n: "no_over_underflow [Finite 1, Finite (1 / 2 ^ 30)] [Finite 0, Finite 0] (nat 2)"
    using ex_no_over_underflow by simp
  have e: "(euclidean (map val [Finite 1, Finite (1 / 2 ^ 30)]) (map val [Finite 0, Finite 0]) (nat 2))\<^sup>2
           = 1 + 1 / 2 ^ 60"
    by (simp add: euclidean_def numeral_2_eq_2 lessThan_Suc power_divide)
  have n7: "nat 2 + 5 = 7" by simp
  from compute_dist_relative_error [OF h1 h2 n] obtain r where
    r: "compute_dist [Finite 1, Finite (1 / 2 ^ 30)] [Finite 0, Finite 0] 2 = Some (Finite r)"
       "(1 - u64) ^ 7 * (1 + 1 / 2 ^ 60) \<le> r\<^sup>2" "r\<^sup>2 \<le> (1 + u64) ^ 7 * (1 + 1 / 2 ^ 60)"
    unfolding e n7 by blast
  have "r = 1" using r(1) ex_round by simp
  then show ?thesis using r ex_round by simp
qed

subsection \<open>matmul is the transposed product\<close>

lemma dgemm_ref_contract: "dgemm_AtB_contract dgemm_ref"
  unfolding dgemm_AtB_contract_def
proof (intro allI impI conjI)
  fix m n k :: int and A B C :: "real list" and lda ldb ldc i j :: int
  assume pre: "0 \<le> m \<and> 0 \<le> n \<and> 0 \<le> k \<and> k \<le> lda \<and> k \<le> ldb \<and> m \<le> ldc \<and>
        lda * m \<le> int (length A) \<and> ldb * n \<le> int (length B) \<and> ldc * n \<le> int (length C)"
  show "length (dgemm_ref CHR ''T'' CHR ''N'' m n k 1 A lda B ldb 0 C ldc) = length C"
    by (simp add: dgemm_ref_def)
  assume ij: "0 \<le> i \<and> i < m \<and> 0 \<le> j \<and> j < n"
  have ldc: "0 < ldc" "i < ldc" using pre ij by simp_all
  have "i + j * ldc < ldc * n"
  proof -
    have "j + 1 \<le> n" using ij by simp
    then have "(j + 1) * ldc \<le> n * ldc" using ldc(1) by (intro mult_right_mono) simp_all
    then show ?thesis using ldc(2) by (simp add: algebra_simps)
  qed
  moreover have "ldc * n \<le> int (length C)" using pre by simp
  ultimately have lt': "i + j * ldc < int (length C)" by (rule less_le_trans)
  have nn: "0 \<le> i + j * ldc" using ij ldc by simp
  have lt: "nat (i + j * ldc) < length C" using lt' nn by (simp add: nat_less_iff)
  have md: "(i + j * ldc) mod ldc = i" "(i + j * ldc) div ldc = j"
    using ij ldc by simp_all
  show "dgemm_ref CHR ''T'' CHR ''N'' m n k 1 A lda B ldb 0 C ldc ! nat (i + j * ldc) =
        (\<Sum>l = 0..<nat k. A ! nat (int l + i * lda) * B ! nat (int l + j * ldb))"
    using lt nn md ij
    by (simp add: dgemm_ref_def Let_def interv_sum_list_conv_sum_set_nat)
qed

text \<open>
  Claim C8. For all \<open>M, N, K \<ge> 0\<close>, a column-major \<open>K \<times> M\<close> matrix \<open>A\<close> and a
  column-major \<open>K \<times> N\<close> matrix \<open>B\<close>, \<open>matmul\<close> is the call of \<open>DGEMM\<close> with
  \<open>transa = 'T'\<close>, \<open>transb = 'N'\<close>, \<open>alpha = 1\<close>, \<open>beta = 0\<close>, \<open>LDA = K\<close>,
  \<open>LDB = K\<close>, \<open>LDC = M\<close>, and, the routine meeting its contract, it leaves in the
  \<open>M \<times> N\<close> column-major buffer \<open>C\<close> the product \<open>A\<^sup>T B\<close>: entry \<open>(i, j)\<close> is the
  sum over \<open>l < K\<close> of \<open>A[l + i * K] * B[l + j * K]\<close>.
\<close>

theorem matmul_computes_AtB:
  assumes "dgemm_AtB_contract DGEMM"
    and "0 \<le> M" and "0 \<le> N" and "0 \<le> K"
    and "int (length A) = K * M" and "int (length B) = K * N" and "int (length C) = M * N"
  shows "matmul DGEMM M N K A B C = DGEMM CHR ''T'' CHR ''N'' M N K 1 A K B K 0 C M \<and>
         length (matmul DGEMM M N K A B C) = length C \<and>
         (\<forall>i j. 0 \<le> i \<and> i < M \<and> 0 \<le> j \<and> j < N \<longrightarrow>
            matmul DGEMM M N K A B C ! nat (i + j * M) =
              (\<Sum>l = 0..<nat K. A ! nat (int l + i * K) * B ! nat (int l + j * K)))"
proof -
  have pre: "0 \<le> M \<and> 0 \<le> N \<and> 0 \<le> K \<and> K \<le> K \<and> K \<le> K \<and> M \<le> M \<and>
        K * M \<le> int (length A) \<and> K * N \<le> int (length B) \<and> M * N \<le> int (length C)"
    using assms by simp
  have m: "matmul DGEMM M N K A B C = DGEMM CHR ''T'' CHR ''N'' M N K 1 A K B K 0 C M"
    by (simp add: matmul_def)
  from assms(1) [unfolded dgemm_AtB_contract_def, rule_format, OF pre]
  show ?thesis unfolding m by blast
qed

theorem matmul_computes_AtB_witness:
  "matmul dgemm_ref 2 1 2 [1, 2, 3, 4] [5, 6] [0, 0] ! 0 = 17 \<and>
   matmul dgemm_ref 2 1 2 [1, 2, 3, 4] [5, 6] [0, 0] ! 1 = 39 \<and>
   length (matmul dgemm_ref 2 1 2 [1, 2, 3, 4] [5, 6] [0, 0]) = 2"
proof -
  note t = matmul_computes_AtB [OF dgemm_ref_contract, of 2 1 2 "[1, 2, 3, 4]" "[5, 6]" "[0, 0]"]
  have h: "(0::int) \<le> 2" "(0::int) \<le> 1" "int (length [1, 2, 3, 4 :: real]) = 2 * 2"
    "int (length [5, 6 :: real]) = 2 * 1" "int (length [0, 0 :: real]) = 2 * 1" by simp_all
  note t' = t [OF h(1) h(2) h(1) h(3) h(4) h(5)]
  from t' have e: "\<And>i j. 0 \<le> i \<and> i < 2 \<and> 0 \<le> j \<and> j < 1 \<Longrightarrow>
      matmul dgemm_ref 2 1 2 [1, 2, 3, 4] [5, 6] [0, 0] ! nat (i + j * 2) =
        (\<Sum>l = 0..<nat 2. [1, 2, 3, 4] ! nat (int l + i * 2) * [5, 6] ! nat (int l + j * 2))"
    by blast
  have "matmul dgemm_ref 2 1 2 [1, 2, 3, 4] [5, 6] [0, 0] ! 0 = 17"
    using e [of 0 0] by (simp add: numeral_2_eq_2)
  moreover have "matmul dgemm_ref 2 1 2 [1, 2, 3, 4] [5, 6] [0, 0] ! 1 = 39"
    using e [of 1 0] by (simp add: numeral_2_eq_2 nat_add_distrib)
  moreover have "length (matmul dgemm_ref 2 1 2 [1, 2, 3, 4] [5, 6] [0, 0]) = 2"
  proof -
    from t' have "length (matmul dgemm_ref 2 1 2 [1, 2, 3, 4] [5, 6] [0, 0]) = length [0, 0 :: real]"
      by blast
    then show ?thesis by simp
  qed
  ultimately show ?thesis by blast
qed

subsection \<open>rand_normal: the bound on the stored S\<close>








lemma sqrt_arg_pos: "0 < s \<Longrightarrow> s < 1 \<Longrightarrow> 0 < - 2 * ln s / (s::real)"
proof -
  assume a: "0 < s" "s < 1"
  then have "ln s < 0" by simp
  then have "0 < - 2 * ln s" by simp
  then show ?thesis using a(1) by (rule divide_pos_pos)
qed



subsection \<open>rand_normal: the rejection loop and the cached pair\<close>

lemma rn_draw_pair_d_simps:
  "V1_d (rn_draw_pair_d u st) = fsub (fmul (Finite 2) (u (drawn_d st))) (Finite 1)"
  "V2_d (rn_draw_pair_d u st) = fsub (fmul (Finite 2) (u (drawn_d st + 1))) (Finite 1)"
  "S_d (rn_draw_pair_d u st) =
     fadd (fmul (V1_d (rn_draw_pair_d u st)) (V1_d (rn_draw_pair_d u st)))
          (fmul (V2_d (rn_draw_pair_d u st)) (V2_d (rn_draw_pair_d u st)))"
  "phase_d (rn_draw_pair_d u st) = phase_d st"
  "drawn_d (rn_draw_pair_d u st) = drawn_d st + 2"
  by (simp_all add: rn_draw_pair_d_def Let_def)

lemma rn_rejected_d_iff:
  "rn_rejected_d u (drawn_d st) \<longleftrightarrow>
     fge (S_d (rn_draw_pair_d u st)) (Finite 1) \<or> feq (S_d (rn_draw_pair_d u st)) (Finite 0)"
  by (simp add: rn_rejected_d_def rn_draw_pair_d_def Let_def)

lemma rand_normal_loop_d_accept:
  "\<not> rn_rejected_d u (drawn_d st + 2 * k) \<Longrightarrow> (\<And>j. j < k \<Longrightarrow> rn_rejected_d u (drawn_d st + 2 * j)) \<Longrightarrow>
   rand_normal_loop_d u st = Some (rn_draw_pair_d u (st\<lparr>drawn_d := drawn_d st + 2 * k\<rparr>))"
proof (induction k arbitrary: st)
  case 0
  then have "\<not> rn_rejected_d u (drawn_d st)" by simp
  then show ?case
    by (subst rand_normal_loop_d.simps) (simp add: rn_rejected_d_iff)
next
  case (Suc k)
  have rej: "rn_rejected_d u (drawn_d st)" using Suc.prems(2) [of 0] by simp
  have a: "\<not> rn_rejected_d u (drawn_d (rn_draw_pair_d u st) + 2 * k)"
    using Suc.prems(1) by (simp add: rn_draw_pair_d_simps)
  have b: "rn_rejected_d u (drawn_d (rn_draw_pair_d u st) + 2 * j)" if "j < k" for j
    using Suc.prems(2) [of "Suc j"] that by (simp add: rn_draw_pair_d_simps)
  have "rand_normal_loop_d u st = rand_normal_loop_d u (rn_draw_pair_d u st)"
    using rej by (subst rand_normal_loop_d.simps) (simp add: rn_rejected_d_iff)
  also have "\<dots> = Some (rn_draw_pair_d u ((rn_draw_pair_d u st)\<lparr>drawn_d := drawn_d (rn_draw_pair_d u st) + 2 * k\<rparr>))"
    using Suc.IH [OF a b] by simp
  also have "rn_draw_pair_d u ((rn_draw_pair_d u st)\<lparr>drawn_d := drawn_d (rn_draw_pair_d u st) + 2 * k\<rparr>)
            = rn_draw_pair_d u (st\<lparr>drawn_d := drawn_d st + 2 * Suc k\<rparr>)"
    by (simp add: rn_draw_pair_d_def Let_def)
  finally show ?case .
qed

lemma rand_normal_loop_d_Some:
  "rand_normal_loop_d u st = Some st' \<Longrightarrow>
     \<exists>k. st' = rn_draw_pair_d u (st\<lparr>drawn_d := drawn_d st + 2 * k\<rparr>) \<and>
         \<not> rn_rejected_d u (drawn_d st + 2 * k) \<and>
         (\<forall>j<k. rn_rejected_d u (drawn_d st + 2 * j))"
proof (induction u st st' rule: rand_normal_loop_d.raw_induct [rotated 1, consumes 1, case_names 1])
  case (1 loop u st st')
  show ?case
  proof (cases "rn_rejected_d u (drawn_d st)")
    case False
    then have "st' = rn_draw_pair_d u st" using 1(2) by (simp add: rn_rejected_d_iff)
    then have "st' = rn_draw_pair_d u (st\<lparr>drawn_d := drawn_d st + 2 * 0\<rparr>) \<and>
      \<not> rn_rejected_d u (drawn_d st + 2 * 0) \<and>
      (\<forall>j<0. rn_rejected_d u (drawn_d st + 2 * j))" using False by simp
    then show ?thesis by blast
  next
    case True
    then have "loop u (rn_draw_pair_d u st) = Some st'" using 1(2) by (simp add: rn_rejected_d_iff)
    from 1(1) [OF this] obtain k where
      k: "st' = rn_draw_pair_d u ((rn_draw_pair_d u st)\<lparr>drawn_d := drawn_d (rn_draw_pair_d u st) + 2 * k\<rparr>)"
         "\<not> rn_rejected_d u (drawn_d (rn_draw_pair_d u st) + 2 * k)"
         "\<forall>j<k. rn_rejected_d u (drawn_d (rn_draw_pair_d u st) + 2 * j)" by blast
    have "st' = rn_draw_pair_d u (st\<lparr>drawn_d := drawn_d st + 2 * Suc k\<rparr>)"
      using k(1) by (simp add: rn_draw_pair_d_def Let_def)
    moreover have "\<not> rn_rejected_d u (drawn_d st + 2 * Suc k)"
      using k(2) by (simp add: rn_draw_pair_d_simps)
    moreover have "\<forall>j<Suc k. rn_rejected_d u (drawn_d st + 2 * j)"
    proof (intro allI impI)
      fix j assume "j < Suc k"
      show "rn_rejected_d u (drawn_d st + 2 * j)"
      proof (cases j)
        case 0 then show ?thesis using True by simp
      next
        case (Suc j')
        then have "j' < k" using \<open>j < Suc k\<close> by simp
        with k(3) have "rn_rejected_d u (drawn_d (rn_draw_pair_d u st) + 2 * j')" by blast
        then show ?thesis using Suc by (simp add: rn_draw_pair_d_simps)
      qed
    qed
    ultimately show ?thesis by blast
  qed
qed

text \<open>
When every pair is rejected the loop does not return.
\<close>

lemma rand_normal_loop_d_never_accepts:
  assumes "\<And>k. rn_rejected_d u (drawn_d st + 2 * k)"
  shows "rand_normal_loop_d u st = None"
proof (cases "rand_normal_loop_d u st")
  case None
  then show ?thesis .
next
  case (Some st')
  from rand_normal_loop_d_Some [OF Some] assms show ?thesis by blast
qed

lemma rand_normal_d_phase:
  assumes "rand_normal_d clog u st = Some (x, st')"
  shows "phase_d st' = 1 - phase_d st"
proof (cases "phase_d st = 0")
  case False
  then show ?thesis using assms by (auto simp: rand_normal_d_def)
next
  case True
  then obtain p where p: "rand_normal_loop_d u st = Some p" and st': "st' = p\<lparr>phase_d := 1 - phase_d p\<rparr>"
    using assms by (auto simp: rand_normal_d_def split: option.splits)
  from rand_normal_loop_d_Some [OF p] have "phase_d p = phase_d st"
    by (auto simp: rn_draw_pair_d_simps)
  then show ?thesis using st' by simp
qed

text \<open>
  The stored \<open>S\<close> is a sum of two squares: when no draw is a NaN it is a nonnegative
  number or \<open>+inf\<close>, and an \<open>S\<close> that the loop accepts lies strictly between 0 and 1.
\<close>

lemma fmul_self_cases:
  assumes "v \<noteq> NaN"
  shows "fmul v v = PInf \<or> (\<exists>s. fmul v v = Finite s \<and> 0 \<le> s)"
proof (cases "is_inf v")
  case True
  then show ?thesis using assms by (cases v) (simp_all add: fmul_def signed_inf_def)
next
  case False
  then have "fmul v v = round64 False (val v * val v)"
    using assms by (simp add: fmul_def)
  then show ?thesis using round64_nonneg [of "val v * val v"] by simp
qed

lemma fadd_nonneg_cases:
  assumes "a = PInf \<or> (\<exists>s. a = Finite s \<and> 0 \<le> s)" "b = PInf \<or> (\<exists>s. b = Finite s \<and> 0 \<le> s)"
  shows "fadd a b = PInf \<or> (\<exists>s. fadd a b = Finite s \<and> 0 \<le> s)"
proof -
  consider "a = PInf" | "b = PInf" "a \<noteq> PInf" | s p where "a = Finite s" "b = Finite p" "0 \<le> s" "0 \<le> p"
    using assms by blast
  then show ?thesis
  proof cases
    case 1
    then show ?thesis using assms(2) by (auto simp: fadd_def)
  next
    case 2
    then show ?thesis using assms(1) by (auto simp: fadd_def)
  next
    case 3
    show ?thesis
    proof (cases "s + p = 0")
      case True
      then show ?thesis using 3 by (simp add: fadd_def signed_zero_def)
    next
      case False
      then have "fadd a b = round64 False (s + p)" using 3 by (simp add: fadd_def)
      then show ?thesis using round64_nonneg [of "s + p"] 3 by simp
    qed
  qed
qed

lemma centred_not_NaN:
  assumes "U \<noteq> NaN"
  shows "fsub (fmul (Finite 2) U) (Finite 1) \<noteq> NaN"
proof -
  have m: "fmul (Finite 2) U \<noteq> NaN"
    using assms by (cases U) (simp_all add: fmul_def signed_inf_def)
  show ?thesis
  proof (cases "is_inf (fmul (Finite 2) U)")
    case True
    then show ?thesis using m by (simp add: fsub_def fadd_def)
  next
    case False
    then show ?thesis using m by (simp add: fsub_def fadd_def signed_zero_def)
  qed
qed

lemma accepted_S:
  assumes "u n \<noteq> NaN" "u (n + 1) \<noteq> NaN" "\<not> rn_rejected_d u n"
  shows "\<exists>s. fadd (fmul (fsub (fmul (Finite 2) (u n)) (Finite 1)) (fsub (fmul (Finite 2) (u n)) (Finite 1)))
                   (fmul (fsub (fmul (Finite 2) (u (n + 1))) (Finite 1)) (fsub (fmul (Finite 2) (u (n + 1))) (Finite 1)))
             = Finite s \<and> 0 < s \<and> s < 1"
proof -
  let ?v1 = "fsub (fmul (Finite 2) (u n)) (Finite 1)"
  let ?v2 = "fsub (fmul (Finite 2) (u (n + 1))) (Finite 1)"
  let ?s = "fadd (fmul ?v1 ?v1) (fmul ?v2 ?v2)"
  have "?s = PInf \<or> (\<exists>s. ?s = Finite s \<and> 0 \<le> s)"
    by (intro fadd_nonneg_cases fmul_self_cases centred_not_NaN assms(1,2))
  moreover have "\<not> fge ?s (Finite 1)" "\<not> feq ?s (Finite 0)"
    using assms(3) by (simp_all add: rn_rejected_d_def Let_def)
  ultimately show ?thesis
    by (auto simp: fge_def feq_def)
qed

text \<open>
  Claim C9. \<open>rand_normal\<close> keeps the state of the polar method in its statics, and
  every call that returns leaves \<open>1 - phase\<close> in \<open>phase\<close>. A call at \<open>phase = 0\<close>
  draws pairs from \<open>drand48\<close> until the loop accepts one (the \<open>k\<close> pairs before it
  rejected, \<open>2 * (k + 1)\<close> values drawn), stores \<open>V1 = 2 * U1 - 1\<close>,
  \<open>V2 = 2 * U2 - 1\<close> and \<open>S = V1 * V1 + V2 * V2\<close> as binary64 arithmetic computes
  them, with \<open>0 < S < 1\<close> (\<open>drand48\<close> returning numbers, not NaN), sets \<open>phase\<close> to 1
  and returns \<open>V1 * sqrt(-2 * log(S) / S)\<close>. The call after it returns
  \<open>V2 * sqrt(-2 * log(S) / S)\<close> from the cached statics whatever \<open>drand48\<close> would
  return, draws nothing, and sets \<open>phase\<close> back to 0.
\<close>

theorem rand_normal_polar_pair:
  assumes "phase_d st = 0"
    and "\<forall>n. drand48 n \<noteq> NaN"
    and "\<not> rn_rejected_d drand48 (drawn_d st + 2 * k)"
    and "\<forall>j<k. rn_rejected_d drand48 (drawn_d st + 2 * j)"
  shows "(\<forall>x s'. rand_normal_d clog drand48 s0 = Some (x, s') \<longrightarrow> phase_d s' = 1 - phase_d s0) \<and>
         (\<exists>st1 s. rand_normal_d clog drand48 st =
             Some (fmul (V1_d st1) (fsqrt (fdiv (fmul (Finite (- 2)) (clog (S_d st1))) (S_d st1))), st1) \<and>
           V1_d st1 = fsub (fmul (Finite 2) (drand48 (drawn_d st + 2 * k))) (Finite 1) \<and>
           V2_d st1 = fsub (fmul (Finite 2) (drand48 (drawn_d st + 2 * k + 1))) (Finite 1) \<and>
           S_d st1 = fadd (fmul (V1_d st1) (V1_d st1)) (fmul (V2_d st1) (V2_d st1)) \<and>
           S_d st1 = Finite s \<and> 0 < s \<and> s < 1 \<and>
           phase_d st1 = 1 \<and>
           drawn_d st1 = drawn_d st + 2 * (k + 1) \<and>
           (\<forall>drand48'. rand_normal_d clog drand48' st1 =
              Some (fmul (V2_d st1) (fsqrt (fdiv (fmul (Finite (- 2)) (clog (S_d st1))) (S_d st1))),
                    st1\<lparr>phase_d := 0\<rparr>)))"
proof -
  have toggle: "\<forall>x s'. rand_normal_d clog drand48 s0 = Some (x, s') \<longrightarrow> phase_d s' = 1 - phase_d s0"
    using rand_normal_d_phase by blast
  let ?p = "rn_draw_pair_d drand48 (st\<lparr>drawn_d := drawn_d st + 2 * k\<rparr>)"
  let ?st1 = "?p\<lparr>phase_d := 1\<rparr>"
  let ?root = "\<lambda>t. fsqrt (fdiv (fmul (Finite (- 2)) (clog (S_d t))) (S_d t))"
  have loop: "rand_normal_loop_d drand48 st = Some ?p"
    using assms(3,4) by (intro rand_normal_loop_d_accept) simp_all
  have ph: "phase_d ?p = 0" using assms(1) by (simp add: rn_draw_pair_d_simps)
  have call: "rand_normal_d clog drand48 st = Some (fmul (V1_d ?st1) (?root ?st1), ?st1)"
    using assms(1) loop ph by (simp add: rand_normal_d_def)
  have v: "V1_d ?st1 = fsub (fmul (Finite 2) (drand48 (drawn_d st + 2 * k))) (Finite 1)"
          "V2_d ?st1 = fsub (fmul (Finite 2) (drand48 (drawn_d st + 2 * k + 1))) (Finite 1)"
          "S_d ?st1 = fadd (fmul (V1_d ?st1) (V1_d ?st1)) (fmul (V2_d ?st1) (V2_d ?st1))"
          "phase_d ?st1 = 1" "drawn_d ?st1 = drawn_d st + 2 * (k + 1)"
    by (simp_all add: rn_draw_pair_d_def Let_def)
  obtain s where s: "S_d ?st1 = Finite s" "0 < s" "s < 1"
    using accepted_S [of drand48 "drawn_d st + 2 * k"] assms(2,3) unfolding v(3) v(1) v(2) by blast
  have next_call: "rand_normal_d clog u ?st1 = Some (fmul (V2_d ?st1) (?root ?st1), ?st1\<lparr>phase_d := 0\<rparr>)" for u
    by (simp add: rand_normal_d_def)
  from call v s next_call
  have "\<exists>st1 s. rand_normal_d clog drand48 st =
             Some (fmul (V1_d st1) (fsqrt (fdiv (fmul (Finite (- 2)) (clog (S_d st1))) (S_d st1))), st1) \<and>
           V1_d st1 = fsub (fmul (Finite 2) (drand48 (drawn_d st + 2 * k))) (Finite 1) \<and>
           V2_d st1 = fsub (fmul (Finite 2) (drand48 (drawn_d st + 2 * k + 1))) (Finite 1) \<and>
           S_d st1 = fadd (fmul (V1_d st1) (V1_d st1)) (fmul (V2_d st1) (V2_d st1)) \<and>
           S_d st1 = Finite s \<and> 0 < s \<and> s < 1 \<and>
           phase_d st1 = 1 \<and>
           drawn_d st1 = drawn_d st + 2 * (k + 1) \<and>
           (\<forall>drand48'. rand_normal_d clog drand48' st1 =
              Some (fmul (V2_d st1) (fsqrt (fdiv (fmul (Finite (- 2)) (clog (S_d st1))) (S_d st1))),
                    st1\<lparr>phase_d := 0\<rparr>))"
    by blast
  with toggle show ?thesis by blast
qed

text \<open>
The reference logarithm at its special arguments.
\<close>

lemma log_nearest_values:
  "log_nearest (Finite 1) = Finite 0" "log_nearest (Finite 0) = MInf" "log_nearest MZero = MInf"
  "log_nearest (Finite (- 1)) = NaN" "log_nearest PInf = PInf" "log_nearest MInf = NaN"
  "log_nearest NaN = NaN"
  by (simp_all add: log_nearest_def round64_def signed_zero_def)

lemma round_sq_V1: "round64 False ((1 - 1 / 2 ^ 47) * (1 - 1 / 2 ^ 47)) = Finite (1 - 1 / 2 ^ 46)"
proof -
  have "nearest ((1 - 1 / 2 ^ 47) * (1 - 1 / 2 ^ 47)) = 1 - 1 / 2 ^ 46"
    by (subst nearest_eval [of "- 1"]) (simp_all add: pow2_def round_even_def Let_def)
  then show ?thesis by (simp add: round64_def)
qed

lemma round_sum_S: "round64 False (1 - 1 / 2 ^ 69 + 1 / 2 ^ 94) = Finite 1"
proof -
  have "nearest (1 - 1 / 2 ^ 69 + 1 / 2 ^ 94) = 1"
    by (subst nearest_eval [of "- 1"]) (simp_all add: pow2_def round_even_def Let_def)
  then show ?thesis by (simp add: round64_def)
qed

lemma ex_b64:
  "binary64 (2 - 1 / 2 ^ 47)" "binary64 (1 - 1 / 2 ^ 47)"
  "binary64 (1 + 1 / 2 ^ 23 - 1 / 2 ^ 47)" "binary64 (1 / 2 ^ 23 - 1 / 2 ^ 47)"
  "binary64 (1 / 2 ^ 46 - 1 / 2 ^ 69 + 1 / 2 ^ 94)"
  "binary64 (3 / 2)" "binary64 (1 / 2)" "binary64 (1 / 4)" "binary64 1" "binary64 0"
  using binary64_dyadic [of "2 ^ 48 - 1" "- 47"] binary64_dyadic [of "2 ^ 47 - 1" "- 47"]
    binary64_dyadic [of "2 ^ 47 + 2 ^ 24 - 1" "- 47"] binary64_dyadic [of "2 ^ 24 - 1" "- 47"]
    binary64_dyadic [of "2 ^ 48 - 2 ^ 25 + 1" "- 94"]
    binary64_dyadic [of 3 "- 1"] binary64_dyadic [of 1 "- 1"] binary64_dyadic [of 1 "- 2"]
    binary64_dyadic [of 1 0] binary64_dyadic [of 0 0]
  by (simp_all add: pow2_def)

lemma ex_pair0:
  "fsub (fmul (Finite 2) (ex_stream 0)) (Finite 1) = Finite (1 - 1 / 2 ^ 47)"
  "fsub (fmul (Finite 2) (ex_stream 1)) (Finite 1) = Finite (1 / 2 ^ 23 - 1 / 2 ^ 47)"
  using ex_b64
  by (simp_all add: ex_stream_def fmul_def fsub_def fadd_def signed_zero_def round64_binary64)

lemma ex_S0:
  "fadd (fmul (Finite (1 - 1 / 2 ^ 47)) (Finite (1 - 1 / 2 ^ 47)))
        (fmul (Finite (1 / 2 ^ 23 - 1 / 2 ^ 47)) (Finite (1 / 2 ^ 23 - 1 / 2 ^ 47))) = Finite 1"
proof -
  have a: "fmul (Finite (1 - 1 / 2 ^ 47)) (Finite (1 - 1 / 2 ^ 47)) = Finite (1 - 1 / 2 ^ 46)"
    using round_sq_V1 by (simp add: fmul_def)
  have "(1 / 2 ^ 23 - 1 / 2 ^ 47) * (1 / 2 ^ 23 - 1 / 2 ^ 47) = (1 / 2 ^ 46 - 1 / 2 ^ 69 + 1 / 2 ^ 94 :: real)"
    by simp
  then have b: "fmul (Finite (1 / 2 ^ 23 - 1 / 2 ^ 47)) (Finite (1 / 2 ^ 23 - 1 / 2 ^ 47)) =
             Finite (1 / 2 ^ 46 - 1 / 2 ^ 69 + 1 / 2 ^ 94)"
    using round64_binary64 [OF ex_b64(5), of False] by (simp add: fmul_def)
  have "(1 - 1 / 2 ^ 46) + (1 / 2 ^ 46 - 1 / 2 ^ 69 + 1 / 2 ^ 94) = (1 - 1 / 2 ^ 69 + 1 / 2 ^ 94 :: real)"
    by simp
  then show ?thesis
    unfolding a b using round_sum_S by (simp add: fadd_def)
qed

lemma ex_rejected0: "rn_rejected_d ex_stream 0"
  unfolding rn_rejected_d_def Let_def
  using ex_pair0 ex_S0 by (simp add: fge_def)

lemma ex_pair2:
  "fsub (fmul (Finite 2) (ex_stream 2)) (Finite 1) = Finite (1 / 2)"
  "fsub (fmul (Finite 2) (ex_stream 3)) (Finite 1) = Finite 0"
  using ex_b64
  by (simp_all add: ex_stream_def fmul_def fsub_def fadd_def signed_zero_def round64_binary64)

lemma ex_S2:
  "fadd (fmul (Finite (1 / 2)) (Finite (1 / 2))) (fmul (Finite 0) (Finite 0)) = Finite (1 / 4)"
  using ex_b64
  by (simp add: fmul_def fadd_def signed_zero_def round64_binary64)

lemma ex_accepted2: "\<not> rn_rejected_d ex_stream 2"
proof -
  have "Suc 2 = 3" by simp
  then show ?thesis
    unfolding rn_rejected_d_def Let_def
    using ex_pair2 ex_S2 by (simp add: fge_def feq_def)
qed

lemma ex_stream_not_NaN: "\<forall>n. ex_stream n \<noteq> NaN"
  by (simp add: ex_stream_def)

text \<open>
  Over the real numbers the first pair of \<open>ex_stream\<close> has \<open>S < 1\<close> and would be
  accepted; in binary64 arithmetic, and in the code, it is rejected.
\<close>

lemma ex_exact_accepts:
  "(1 - 1 / 2 ^ 47) * (1 - 1 / 2 ^ 47) + (1 / 2 ^ 23 - 1 / 2 ^ 47) * (1 / 2 ^ 23 - 1 / 2 ^ 47) < (1::real)"
  "\<not> rn_rejected (\<lambda>n. val (ex_stream n)) 0"
  by (simp_all add: rn_rejected_def ex_stream_def Let_def)

text \<open>
  On the sequence \<open>ex_stream\<close> the first pair is rejected because its \<open>S\<close> rounds to
  \<open>1.0\<close>, the second is accepted: the first call draws four values and caches
  \<open>V1 = 0.5\<close>, \<open>V2 = 0\<close>, \<open>S = 0.25\<close>; the second call draws nothing.
\<close>

theorem rand_normal_polar_pair_witness:
  "rn_rejected_d ex_stream 0 \<and> \<not> rn_rejected_d ex_stream 2 \<and>
   rand_normal_d log_nearest ex_stream (rn_init_d 0) =
     Some (fmul (Finite (1 / 2))
             (fsqrt (fdiv (fmul (Finite (- 2)) (log_nearest (Finite (1 / 4)))) (Finite (1 / 4)))),
           \<lparr>V1_d = Finite (1 / 2), V2_d = Finite 0, S_d = Finite (1 / 4), phase_d = 1, drawn_d = 4\<rparr>) \<and>
   rand_normal_d log_nearest (\<lambda>n. NaN)
       \<lparr>V1_d = Finite (1 / 2), V2_d = Finite 0, S_d = Finite (1 / 4), phase_d = 1, drawn_d = 4\<rparr> =
     Some (fmul (Finite 0)
             (fsqrt (fdiv (fmul (Finite (- 2)) (log_nearest (Finite (1 / 4)))) (Finite (1 / 4)))),
           \<lparr>V1_d = Finite (1 / 2), V2_d = Finite 0, S_d = Finite (1 / 4), phase_d = 0, drawn_d = 4\<rparr>)"
proof -
  have h1: "phase_d (rn_init_d 0) = 0" by (simp add: rn_init_d_def)
  have e: "drawn_d (rn_init_d 0) + 2 * 1 = 2" "drawn_d (rn_init_d 0) + 2 * 1 + 1 = 3"
    "drawn_d (rn_init_d 0) + 2 * (1 + 1) = 4"
    by (simp_all add: rn_init_d_def)
  have h3: "\<not> rn_rejected_d ex_stream (drawn_d (rn_init_d 0) + 2 * 1)"
    unfolding e by (rule ex_accepted2)
  have h4: "\<forall>j<1. rn_rejected_d ex_stream (drawn_d (rn_init_d 0) + 2 * j)"
    using ex_rejected0 by (simp add: rn_init_d_def)
  from rand_normal_polar_pair [OF h1 ex_stream_not_NaN h3 h4, of log_nearest] obtain st1 where
    c: "rand_normal_d log_nearest ex_stream (rn_init_d 0) =
          Some (fmul (V1_d st1) (fsqrt (fdiv (fmul (Finite (- 2)) (log_nearest (S_d st1))) (S_d st1))), st1)"
    and f: "V1_d st1 = fsub (fmul (Finite 2) (ex_stream (drawn_d (rn_init_d 0) + 2 * 1))) (Finite 1)"
           "V2_d st1 = fsub (fmul (Finite 2) (ex_stream (drawn_d (rn_init_d 0) + 2 * 1 + 1))) (Finite 1)"
           "S_d st1 = fadd (fmul (V1_d st1) (V1_d st1)) (fmul (V2_d st1) (V2_d st1))"
           "phase_d st1 = 1" "drawn_d st1 = drawn_d (rn_init_d 0) + 2 * (1 + 1)"
    and n: "\<forall>drand48'. rand_normal_d log_nearest drand48' st1 =
              Some (fmul (V2_d st1) (fsqrt (fdiv (fmul (Finite (- 2)) (log_nearest (S_d st1))) (S_d st1))),
                    st1\<lparr>phase_d := 0\<rparr>)"
    by blast
  have st1: "st1 = \<lparr>V1_d = Finite (1 / 2), V2_d = Finite 0, S_d = Finite (1 / 4), phase_d = 1, drawn_d = 4\<rparr>"
  proof -
    have v1: "V1_d st1 = Finite (1 / 2)" using f(1) unfolding e ex_pair2 .
    have v2: "V2_d st1 = Finite 0" using f(2) unfolding e(2) ex_pair2 .
    have s: "S_d st1 = Finite (1 / 4)" unfolding f(3) v1 v2 by (rule ex_S2)
    have d: "drawn_d st1 = 4" using f(5) unfolding e .
    show ?thesis using v1 v2 s d f(4) by (cases st1) simp
  qed
  show ?thesis
    using c n [rule_format, of "\<lambda>n. NaN"] ex_rejected0 ex_accepted2 unfolding st1 by simp
qed

subsection \<open>rand_normal: the bound on the stored S in binary64 arithmetic\<close>

text \<open>
  The bound of the rejection loop on the binary64 model: \<open>drand48\<close> returning numbers,
  every call that returns from a reachable state has evaluated
  \<open>sqrt(-2 * log(S) / S)\<close> at a stored \<open>S\<close> that is a number with \<open>0 < S < 1\<close>, where
  the exact value of \<open>-2 * log(S) / S\<close> is positive.
\<close>

lemma rand_normal_loop_d_S:
  assumes "\<forall>n. u n \<noteq> NaN" and "rand_normal_loop_d u st = Some st'"
  shows "in_unit (S_d st')" and "phase_d st' = phase_d st"
proof -
  from rand_normal_loop_d_Some [OF assms(2)] obtain k where
    k: "st' = rn_draw_pair_d u (st\<lparr>drawn_d := drawn_d st + 2 * k\<rparr>)"
       "\<not> rn_rejected_d u (drawn_d st + 2 * k)" by blast
  obtain s where "S_d st' = Finite s" "0 < s" "s < 1"
    using accepted_S [of u "drawn_d st + 2 * k"] assms(1) k(2)
    unfolding k(1) by (auto simp: rn_draw_pair_d_def Let_def)
  then show "in_unit (S_d st')" by simp
  show "phase_d st' = phase_d st" unfolding k(1) by (simp add: rn_draw_pair_d_simps)
qed

lemma rand_normal_d_inv:
  assumes "\<forall>n. u n \<noteq> NaN" and "rn_inv_d st" and "rand_normal_d clog u st = Some (x, st')"
  shows "rn_inv_d st'" and "in_unit (S_d st')"
    and "x = fmul (if phase_d st = 0 then V1_d st' else V2_d st')
               (fsqrt (fdiv (fmul (Finite (- 2)) (clog (S_d st'))) (S_d st')))"
    and "phase_d st \<noteq> 0 \<Longrightarrow> S_d st' = S_d st"
proof -
  show "rn_inv_d st'" "in_unit (S_d st')"
    using assms(2,3) rand_normal_loop_d_S [OF assms(1)]
    by (auto simp: rn_inv_d_def rand_normal_d_def split: if_splits option.splits)
  show "x = fmul (if phase_d st = 0 then V1_d st' else V2_d st')
               (fsqrt (fdiv (fmul (Finite (- 2)) (clog (S_d st'))) (S_d st')))"
    using assms(3) by (auto simp: rand_normal_d_def split: if_splits option.splits)
  show "phase_d st \<noteq> 0 \<Longrightarrow> S_d st' = S_d st"
    using assms(3) by (auto simp: rand_normal_d_def split: if_splits option.splits)
qed

lemma rn_reachable_d_inv:
  assumes "\<forall>n. u n \<noteq> NaN"
  shows "rn_reachable_d clog u st \<Longrightarrow> rn_inv_d st"
proof (induction rule: rn_reachable_d.induct)
  case (rn_start_d n)
  show ?case by (simp add: rn_inv_d_def rn_init_d_def)
next
  case (rn_call_d st x st')
  then show ?case using rand_normal_d_inv(1) [OF assms] by blast
next
  case (rn_other_d st m)
  then show ?case by (simp add: rn_inv_d_def)
qed

lemma rand_normal_d_S_bound:
  assumes "\<forall>n. drand48 n \<noteq> NaN"
    and "rn_reachable_d clog drand48 st" and "rand_normal_d clog drand48 st = Some (x, st')"
  shows "\<exists>s. S_d st' = Finite s \<and> 0 < s \<and> s < 1 \<and> 0 < - 2 * ln s / s"
    and "x = fmul (if phase_d st = 0 then V1_d st' else V2_d st')
               (fsqrt (fdiv (fmul (Finite (- 2)) (clog (S_d st'))) (S_d st')))"
    and "phase_d st \<noteq> 0 \<Longrightarrow> S_d st' = S_d st"
proof -
  have inv: "rn_inv_d st" using assms(2) by (rule rn_reachable_d_inv [OF assms(1)])
  note r = rand_normal_d_inv [OF assms(1) inv assms(3)]
  from r(2) obtain s where s: "S_d st' = Finite s" "0 < s" "s < 1"
    by (cases "S_d st'") simp_all
  have "0 < - 2 * ln s / s" using s(2,3) by (rule sqrt_arg_pos)
  with s show "\<exists>s. S_d st' = Finite s \<and> 0 < s \<and> s < 1 \<and> 0 < - 2 * ln s / s" by blast
  show "x = fmul (if phase_d st = 0 then V1_d st' else V2_d st')
               (fsqrt (fdiv (fmul (Finite (- 2)) (clog (S_d st'))) (S_d st')))"
    by (rule r(3))
  show "phase_d st \<noteq> 0 \<Longrightarrow> S_d st' = S_d st" by (rule r(4))
qed

end

